theory Spec2Isabelle
  imports Main "HOL-Library.Sublist"
begin

section \<open>Text symbols and string helpers\<close>

text \<open>
  Source text is a \<open>string\<close>: one \<open>char\<close> per JavaScript string element, so
  \<open>length\<close> is \<open>String.length\<close>, \<open>drop n\<close> is \<open>slice(n)\<close> and the \<open>for ... of\<close>
  loop of \<open>Lexer.match\<close> visits one element at a time (texts of the Basic Multilingual
  Plane; the library counts raw characters only).  Offsets, lines and columns are
  non-negative integers, hence \<open>nat\<close>.
\<close>

text \<open>Modelled from the spec: \<open>enums.ts\<close> is missing; \<open>TextSymbol.NEWLINE\<close> is the
  newline character the text is split on.\<close>

definition NEWLINE :: char where
  "NEWLINE = CHR 0x0A"

text \<open>Modelled from the spec: \<open>enums.ts\<close> is missing; \<open>TextSymbol.MINUS\<close> is the
  filler character of a marker line.\<close>

definition MINUS :: char where
  "MINUS = CHR ''-''"

text \<open>Modelled from the spec: \<open>enums.ts\<close> is missing; \<open>TextSymbol.CARET\<close> is the
  caret that ends a marker line.\<close>

definition CARET :: char where
  "CARET = CHR ''^''"

text \<open>The escape \<open>\t\<close> of the message templates.\<close>

definition TAB :: char where
  "TAB = CHR 0x09"

text \<open>\<open>s.split(c)\<close> for a one-character separator: never empty, one more piece than
  there are separators.\<close>

fun split :: "char \<Rightarrow> string \<Rightarrow> string list" where
  "split c [] = [[]]"
| "split c (x # xs) =
     (if x = c then [] # split c xs
      else (case split c xs of [] \<Rightarrow> [[x]] | l # ls \<Rightarrow> (x # l) # ls))"

text \<open>\<open>xs[i]\<close> of JavaScript: \<open>undefined\<close> (here \<open>None\<close>) out of range.\<close>

definition index :: "'a list \<Rightarrow> nat \<Rightarrow> 'a option" where
  "index xs i = (if i < length xs then Some (xs ! i) else None)"

text \<open>Decimal rendering of a number inside a template literal.\<close>

definition digit :: "nat \<Rightarrow> char" where
  "digit d = ''0123456789'' ! d"

fun toString :: "nat \<Rightarrow> string" where
  "toString n = (if n < 10 then [digit n] else toString (n div 10) @ [digit (n mod 10)])"

declare toString.simps [simp del]

text \<open>A possibly \<open>undefined\<close> string inside a template literal.\<close>

definition interpolate :: "string option \<Rightarrow> string" where
  "interpolate s = (case s of None \<Rightarrow> ''undefined'' | Some t \<Rightarrow> t)"

section \<open>Tokens, rules and the lexer state\<close>

text \<open>
  \<open>Token\<close> (token.ts).  The field \<open>end\<close> is \<open>endpos\<close> and \<open>value\<close> is \<open>tvalue\<close>
  here (both are reserved words); \<open>tvalue = None\<close> is an absent value.
\<close>

record 'v token =
  tokenType :: string
  lexeme :: string
  start :: nat
  endpos :: nat
  line :: nat
  column :: nat
  tvalue :: "'v option"

text \<open>
  A \<open>RegExp\<close> is taken by what \<open>s.match(re)\<close> returns: \<open>None\<close> for \<open>null\<close>, else
  \<open>Some (i, n)\<close> with \<open>i\<close> the result's \<open>index\<close> and \<open>n\<close> the length of its element
  \<open>0\<close>, which is the piece of \<open>s\<close> of that length at \<open>i\<close>.  The pattern is a function of
  the string alone, so it has no sticky flag (whose \<open>lastIndex\<close> is state of the
  \<open>RegExp\<close>); a pattern with the global flag yields no \<open>index\<close> and is the pattern that
  never matches at \<open>0\<close>.  The \<open>RegExp\<close> object with its flags and its \<open>lastIndex\<close>
  is in the section on the lexer with its \<open>RegExp\<close> objects.
\<close>

type_synonym regex = "string \<Rightarrow> (nat \<times> nat) option"

text \<open>\<open>TokenTemplate\<close>; its field \<open>tokenType\<close> is \<open>ruleType\<close> here, apart from the
  token's field of that name.\<close>

record 'v TokenTemplate =
  ruleType :: string
  regexPattern :: regex
  callback :: "(string \<Rightarrow> 'v) option"

text \<open>The fields of \<open>Lexer\<close>; \<open>_start\<close>, \<open>_line\<close> and \<open>_column\<close> are \<open>cur_start\<close>,
  \<open>cur_line\<close> and \<open>cur_column\<close>.  Tokens are built by the default \<open>Token\<close> class.\<close>

record 'v lexer =
  templates :: "'v TokenTemplate list"
  tokens :: "'v token list"
  cur_start :: nat
  cur_line :: nat
  cur_column :: nat

definition new_Lexer :: "'v lexer" where
  "new_Lexer = \<lparr>templates = [], tokens = [], cur_start = 0, cur_line = 0, cur_column = 0\<rparr>"

definition addRule :: "string \<Rightarrow> regex \<Rightarrow> (string \<Rightarrow> 'v) option \<Rightarrow> 'v lexer \<Rightarrow> 'v lexer" where
  "addRule ty re cb L =
     L\<lparr>templates := templates L @ [\<lparr>ruleType = ty, regexPattern = re, callback = cb\<rparr>]\<rparr>"

section \<open>The lexical error\<close>

text \<open>
  \<open>UnexpectedCharacterError\<close> (errors.ts).  The constructor replaces a column \<open>\<le> 0\<close> by
  \<open>1\<close> before anything else; the parameter properties \<open>excerpt\<close>, \<open>line\<close> and
  \<open>column\<close> are assigned after the call of \<open>super\<close>, which is the constructor's last
  statement, so the \<open>column\<close> field holds the replaced value.
\<close>

record UnexpectedCharacterError =
  excerpt :: "string option"
  err_line :: nat
  err_column :: nat
  message :: string

definition new_UnexpectedCharacterError ::
  "string option \<Rightarrow> nat \<Rightarrow> nat \<Rightarrow> UnexpectedCharacterError" where
  "new_UnexpectedCharacterError ex ln col =
     (let col' = (if col \<le> 0 then 1 else col);
          arrow = replicate col' MINUS @ [CARET];
          diagram = ''Near here:'' @ [NEWLINE, TAB, TAB] @ interpolate ex
                      @ [NEWLINE, TAB, TAB] @ arrow;
          errMsg = ''Lexer encountered an unexpected character at column '' @ toString col'
                     @ '' on line '' @ toString ln @ '':'' @ [NEWLINE, TAB] @ diagram
      in \<lparr>excerpt = ex, err_line = ln, err_column = col', message = errMsg\<rparr>)"

section \<open>The lexer\<close>

text \<open>The loop of \<open>Lexer.match\<close> over the characters of the lexeme, on the local
  \<open>line\<close> and \<open>column\<close>.\<close>

fun scan_lexeme :: "string \<Rightarrow> nat \<times> nat \<Rightarrow> nat \<times> nat" where
  "scan_lexeme [] (ln, col) = (ln, col)"
| "scan_lexeme (c # cs) (ln, col) =
     (if c = NEWLINE then scan_lexeme cs (ln + 1, 0) else scan_lexeme cs (ln, col + 1))"

text \<open>\<open>Lexer.match\<close>: the candidate token of one rule at the current offset, or
  \<open>None\<close> for \<open>null\<close>, together with the lexer after the call.\<close>

definition match :: "'v TokenTemplate \<Rightarrow> string \<Rightarrow> 'v lexer \<Rightarrow> 'v token option \<times> 'v lexer" where
  "match template text L =
     (let ln = cur_line L; col = cur_column L in
      case regexPattern template (drop (cur_start L) text) of
        None \<Rightarrow> (None, L)
      | Some (idx, n) \<Rightarrow>
          if idx \<noteq> 0 then (None, L)
          else
            let lx = take n (drop (cur_start L) text);
                e = cur_start L + length lx;
                (ln', col') = scan_lexeme lx (ln, col);
                tok = \<lparr>tokenType = ruleType template, lexeme = lx, start = cur_start L,
                        endpos = e, line = ln', column = col', tvalue = None\<rparr>
            in (Some (case callback template of
                        None \<Rightarrow> tok
                      | Some f \<Rightarrow> tok\<lparr>tvalue := Some (f lx)\<rparr>), L))"

text \<open>\<open>Lexer.best\<close>, with \<open>Token.length\<close> the length of the lexeme.\<close>

definition best :: "'v token \<Rightarrow> 'v token \<Rightarrow> 'v token" where
  "best b other = (if length (lexeme b) \<ge> length (lexeme other) then b else other)"

text \<open>\<open>Lexer.accept\<close>.\<close>

definition accept :: "'v token \<Rightarrow> 'v lexer \<Rightarrow> 'v lexer" where
  "accept tok L =
     (let L1 = L\<lparr>tokens := tokens L @ [tok]\<rparr>;
          L2 = (if line tok \<noteq> cur_line L1 then L1\<lparr>cur_column := 0\<rparr>
                else L1\<lparr>cur_column := cur_column L1 + (endpos tok - start tok)\<rparr>);
          L3 = L2\<lparr>cur_start := endpos tok\<rparr>
      in L3\<lparr>cur_line := line tok\<rparr>)"

text \<open>The \<open>for\<close> loop of \<open>tokenize\<close> over the templates: the best candidate so far
  and the lexer are threaded through the calls of \<open>match\<close>.\<close>

fun try_templates ::
  "'v TokenTemplate list \<Rightarrow> string \<Rightarrow> 'v token option \<Rightarrow> 'v lexer \<Rightarrow> 'v token option \<times> 'v lexer" where
  "try_templates [] text b L = (b, L)"
| "try_templates (t # ts) text b L =
     (case match t text L of
        (None, L1) \<Rightarrow> try_templates ts text b L1
      | (Some tok, L1) \<Rightarrow>
          (case b of
             None \<Rightarrow> try_templates ts text (Some tok) L1
           | Some b0 \<Rightarrow> try_templates ts text (Some (best b0 tok)) L1))"

text \<open>The \<open>while\<close> loop of \<open>tokenize\<close>.  It ends with the lexer and \<open>None\<close> when the
  offset has reached the end of the text, or with the error thrown (\<open>Some\<close>); the loop
  that runs forever has the value \<open>None\<close>.\<close>

partial_function (option) scan_loop ::
  "string \<Rightarrow> 'v lexer \<Rightarrow> ('v lexer \<times> UnexpectedCharacterError option) option" where
  "scan_loop text L =
     (if cur_start L < length text then
        (case try_templates (templates L) text None L of
           (None, L1) \<Rightarrow>
             Some (L1, Some (new_UnexpectedCharacterError
                               (index (split NEWLINE text) (cur_line L1))
                               (cur_line L1) (cur_column L1)))
         | (Some b, L1) \<Rightarrow> scan_loop text (accept b L1))
      else Some (L, None))"

declare scan_loop.simps [code]

text \<open>\<open>Lexer.tokenize\<close>: \<open>Inl\<close> is the error thrown, \<open>Inr\<close> the list returned; the
  lexer after the call comes with either.\<close>

definition tokenize ::
  "'v lexer \<Rightarrow> string \<Rightarrow> string list
     \<Rightarrow> ('v lexer \<times> (UnexpectedCharacterError + 'v token list)) option" where
  "tokenize L text filterTypes =
     (let L0 = L\<lparr>tokens := [], cur_start := 0, cur_column := 0, cur_line := 0\<rparr> in
      case scan_loop text L0 of
        None \<Rightarrow> None
      | Some (L1, Some err) \<Rightarrow> Some (L1, Inl err)
      | Some (L1, None) \<Rightarrow>
          Some (L1, Inr (filter (\<lambda>x. tokenType x \<notin> set filterTypes) (tokens L1))))"

section \<open>The token cursor\<close>

text \<open>
  The fields of \<open>ParserBase\<close> and of \<open>Parser\<close> (parser.ts): the token sequence (the
  field \<open>tokens\<close>, here \<open>ptokens\<close>), the position, the soft errors and the source text.
\<close>

record 'v cursor =
  ptokens :: "'v token list"
  currentPosition :: nat
  errors :: "string list"
  source :: string

text \<open>What \<open>consume\<close> throws: the \<open>Error\<close> made by \<open>addError\<close>, or the \<open>TypeError\<close> of
  reading a field of \<open>undefined\<close>.\<close>

datatype thrown = Error string | TypeError

text \<open>Modelled from the spec: \<open>parser.base.ts\<close> is missing.  The token at
  \<open>position + offset\<close>, or none if that index is negative or \<open>\<ge>\<close> the token count.\<close>

definition lookAround :: "'v cursor \<Rightarrow> int \<Rightarrow> 'v token option" where
  "lookAround c offset =
     (let i = int (currentPosition c) + offset
      in if i < 0 \<or> i \<ge> int (length (ptokens c)) then None else Some (ptokens c ! nat i))"

text \<open>Modelled from the spec: \<open>parser.base.ts\<close> is missing.  \<open>current()\<close> is
  \<open>lookAround(0)\<close>.\<close>

definition current :: "'v cursor \<Rightarrow> 'v token option" where
  "current c = lookAround c 0"

text \<open>Modelled from the spec: \<open>parser.base.ts\<close> is missing.  Returns the token at the
  current position and increments the position by one.\<close>

definition advance :: "'v cursor \<Rightarrow> 'v token option \<times> 'v cursor" where
  "advance c =
     (index (ptokens c) (currentPosition c), c\<lparr>currentPosition := currentPosition c + 1\<rparr>)"

text \<open>Modelled from the spec: \<open>parser.base.ts\<close> is missing.  Records a soft error; the
  tests have it return an \<open>Error\<close> with that message.\<close>

definition addError :: "string \<Rightarrow> 'v cursor \<Rightarrow> thrown \<times> 'v cursor" where
  "addError msg c = (Error msg, c\<lparr>errors := errors c @ [msg]\<rparr>)"

text \<open>\<open>Parser.check\<close> (parser.ts): \<open>this.current()?.tokenType == identifier\<close>.\<close>

definition check :: "string \<Rightarrow> 'v cursor \<Rightarrow> bool" where
  "check identifier c =
     (case current c of None \<Rightarrow> False | Some tok \<Rightarrow> tokenType tok = identifier)"

text \<open>\<open>Parser.makeErrorMsg\<close> (parser.ts).  \<open>None\<close> is the \<open>TypeError\<close> of reading
  \<open>column\<close> of the token before the position when there is none.\<close>

definition makeErrorMsg :: "'v cursor \<Rightarrow> string \<Rightarrow> string option" where
  "makeErrorMsg c errorMsg =
     (case (if currentPosition c \<noteq> 0
            then (case index (ptokens c) (currentPosition c - 1) of
                    None \<Rightarrow> None
                  | Some tok \<Rightarrow> Some (column tok, line tok))
            else Some (0, 0)) of
        None \<Rightarrow> None
      | Some (tCol, tLine) \<Rightarrow>
          let arrow = replicate tCol MINUS @ [CARET];
              ex = (if NEWLINE \<in> set (source c)
                    then index (split NEWLINE (source c)) tLine
                    else Some (source c));
              diagram = ''Near here (column '' @ toString tCol @ '' on line '' @ toString tLine
                          @ ''):'' @ [NEWLINE, TAB, TAB] @ interpolate ex
                          @ [NEWLINE, TAB, TAB] @ arrow
          in Some (errorMsg @ '': '' @ [NEWLINE, TAB] @ diagram))"

text \<open>Modelled from the spec: \<open>parser.base.ts\<close> is missing.  If \<open>check(category)\<close>
  holds it is \<open>advance()\<close>; otherwise the rendered diagnostic is recorded as a soft
  error and raised as the hard error.\<close>

definition consume :: "string \<Rightarrow> string \<Rightarrow> 'v cursor \<Rightarrow> (thrown + 'v token option) \<times> 'v cursor" where
  "consume identifier errorMsg c =
     (if check identifier c then (case advance c of (tok, c') \<Rightarrow> (Inr tok, c'))
      else (case makeErrorMsg c errorMsg of
              None \<Rightarrow> (Inl TypeError, c)
            | Some m \<Rightarrow> (case addError m c of (e, c') \<Rightarrow> (Inl e, c'))))"

section \<open>Notions of the specification\<close>

text \<open>The number of newlines of a piece of text, and the number of characters after
  its last newline (all of them when it has none).\<close>

definition newlines :: "string \<Rightarrow> nat" where
  "newlines s = length (filter (\<lambda>c. c = NEWLINE) s)"

definition after_last_newline :: "string \<Rightarrow> nat" where
  "after_last_newline s = length (takeWhile (\<lambda>c. c \<noteq> NEWLINE) (rev s))"

text \<open>The lexer as \<open>tokenize\<close> sets it on entry.\<close>

definition fresh :: "'v lexer \<Rightarrow> 'v lexer" where
  "fresh L = L\<lparr>tokens := [], cur_start := 0, cur_column := 0, cur_line := 0\<rparr>"

text \<open>The lexeme a pattern matches anchored at offset \<open>p\<close> of the text, if any.\<close>

definition anchored :: "regex \<Rightarrow> string \<Rightarrow> nat \<Rightarrow> string option" where
  "anchored re text p =
     (case re (drop p text) of
        None \<Rightarrow> None
      | Some (i, n) \<Rightarrow> if i = 0 then Some (take n (drop p text)) else None)"

text \<open>No rule has a zero-width match at the head of a string.\<close>

definition no_zero_width :: "'v TokenTemplate list \<Rightarrow> bool" where
  "no_zero_width ts \<longleftrightarrow> (\<forall>t\<in>set ts. \<forall>s. regexPattern t s \<noteq> Some (0, 0))"

text \<open>How the \<open>while\<close> loop is left: at the end of the text, or by the error built
  from the scan state where no rule matches.\<close>

definition exit_ok :: "string \<Rightarrow> 'v lexer \<Rightarrow> UnexpectedCharacterError option \<Rightarrow> bool" where
  "exit_ok text L r =
     (case r of
        None \<Rightarrow> length text \<le> cur_start L
      | Some e \<Rightarrow> cur_start L < length text
                 \<and> fst (try_templates (templates L) text None L) = None
                 \<and> e = new_UnexpectedCharacterError (index (split NEWLINE text) (cur_line L))
                         (cur_line L) (cur_column L))"

text \<open>The invariant of the scan: the accepted tokens tile the text read so far.\<close>

definition tiling :: "string \<Rightarrow> 'v lexer \<Rightarrow> bool" where
  "tiling text L \<longleftrightarrow>
     cur_start L \<le> length text
   \<and> concat (map lexeme (tokens L)) = take (cur_start L) text
   \<and> (\<forall>t\<in>set (tokens L). endpos t = start t + length (lexeme t)
          \<and> take (endpos t) text = take (start t) text @ lexeme t)
   \<and> successively (\<lambda>p t. start t = endpos p) (tokens L)
   \<and> (if tokens L = [] then cur_start L = 0
       else start (hd (tokens L)) = 0 \<and> endpos (last (tokens L)) = cur_start L)"

text \<open>A token is chosen by the rules at its offset: its rule matches its lexeme
  there, every rule registered before matches a strictly shorter lexeme or none, and
  every rule registered after a lexeme that is not longer, or none.\<close>

definition chosen :: "'v TokenTemplate list \<Rightarrow> string \<Rightarrow> 'v token \<Rightarrow> bool" where
  "chosen ts text tok \<longleftrightarrow>
     (\<exists>pre t post. ts = pre @ t # post
        \<and> tokenType tok = ruleType t
        \<and> anchored (regexPattern t) text (start tok) = Some (lexeme tok)
        \<and> (\<forall>u\<in>set pre. \<forall>lx. anchored (regexPattern u) text (start tok) = Some lx
               \<longrightarrow> length lx < length (lexeme tok))
        \<and> (\<forall>u\<in>set post. \<forall>lx. anchored (regexPattern u) text (start tok) = Some lx
               \<longrightarrow> length lx \<le> length (lexeme tok)))"

text \<open>The line counters agree with the newlines of the text read.\<close>

definition line_inv :: "string \<Rightarrow> 'v lexer \<Rightarrow> bool" where
  "line_inv text K \<longleftrightarrow>
     tiling text K
   \<and> cur_line K = newlines (take (cur_start K) text)
   \<and> (\<forall>t\<in>set (tokens K). line t = newlines (take (endpos t) text))"

text \<open>The newline law between a token \<open>p\<close> and the token \<open>t\<close> after it, for a lexeme
  of \<open>p\<close> that ends with a newline; and the invariant that carries it through the
  scan.\<close>

definition newline_law :: "string \<Rightarrow> 'v token \<Rightarrow> 'v token \<Rightarrow> bool" where
  "newline_law text p t \<longleftrightarrow>
     (lexeme p \<noteq> [] \<and> last (lexeme p) = NEWLINE
        \<longrightarrow> column t = after_last_newline (take (endpos t) text))"

definition column_inv :: "string \<Rightarrow> 'v lexer \<Rightarrow> bool" where
  "column_inv text K \<longleftrightarrow>
     line_inv text K
   \<and> successively (newline_law text) (tokens K)
   \<and> (tokens K \<noteq> [] \<and> lexeme (last (tokens K)) \<noteq> [] \<and> last (lexeme (last (tokens K))) = NEWLINE
        \<longrightarrow> cur_column K = 0)"

section \<open>Patterns of the test suite\<close>

text \<open>\<open>/[...]+/\<close> for a character class \<open>P\<close>: the first maximal run of characters of
  the class.\<close>

definition re_plus :: "(char \<Rightarrow> bool) \<Rightarrow> regex" where
  "re_plus P s =
     (let pre = takeWhile (\<lambda>c. \<not> P c) s; rest = dropWhile (\<lambda>c. \<not> P c) s
      in if rest = [] then None else Some (length pre, length (takeWhile P rest)))"

text \<open>A pattern that is a literal string, such as \<open>/abc/\<close>: its first occurrence.\<close>

fun re_lit_from :: "nat \<Rightarrow> string \<Rightarrow> string \<Rightarrow> (nat \<times> nat) option" where
  "re_lit_from i lit [] = (if lit = [] then Some (i, 0) else None)"
| "re_lit_from i lit (c # cs) =
     (if prefix lit (c # cs) then Some (i, length lit) else re_lit_from (Suc i) lit cs)"

definition re_lit :: "string \<Rightarrow> regex" where
  "re_lit lit s = re_lit_from 0 lit s"

definition lower :: "char \<Rightarrow> bool" where
  "lower c = (97 \<le> (of_char c :: nat) \<and> (of_char c :: nat) \<le> 122)"

section \<open>Lexers of the test suite\<close>

text \<open>\<open>new Lexer(Token).addRule("LETTER", /[a-z]+/)\<close>.\<close>

definition letter_lexer :: "unit lexer" where
  "letter_lexer = addRule ''LETTER'' (re_plus lower) None new_Lexer"

text \<open>The rule sets \<open>WORD /[a-z]+/, SPACE / /\<close>, \<open>WORD /[a-z]+/, NEWLINE /\n/\<close> and
  \<open>SHORT /if/, LONG /[a-z]+/\<close> of the tests, and a rule set with a lexeme that goes on
  after its newline: \<open>A /a\nbc/, D /d/\<close>.\<close>

definition word_space_lexer :: "unit lexer" where
  "word_space_lexer =
     addRule ''SPACE'' (re_lit '' '') None (addRule ''WORD'' (re_plus lower) None new_Lexer)"

definition word_newline_lexer :: "unit lexer" where
  "word_newline_lexer =
     addRule ''NEWLINE'' (re_lit [NEWLINE]) None (addRule ''WORD'' (re_plus lower) None new_Lexer)"

definition short_long_lexer :: "unit lexer" where
  "short_long_lexer =
     addRule ''LONG'' (re_plus lower) None (addRule ''SHORT'' (re_lit ''if'') None new_Lexer)"

definition block_lexer :: "unit lexer" where
  "block_lexer =
     addRule ''D'' (re_lit ''d'') None
       (addRule ''A'' (re_lit [CHR ''a'', NEWLINE, CHR ''b'', CHR ''c'']) None new_Lexer)"

text \<open>\<open>new Token(ty, lx, s, e, ln, col)\<close>.\<close>

definition mk :: "string \<Rightarrow> string \<Rightarrow> nat \<Rightarrow> nat \<Rightarrow> nat \<Rightarrow> nat \<Rightarrow> unit token" where
  "mk ty lx s e ln col =
     \<lparr>tokenType = ty, lexeme = lx, start = s, endpos = e, line = ln, column = col, tvalue = None\<rparr>"

text \<open>A cursor on the first two tokens of the parser tests, at position \<open>0\<close>.\<close>

definition test_cursor :: "unit cursor" where
  "test_cursor =
     \<lparr>ptokens = [\<lparr>tokenType = ''KEYWORD'', lexeme = ''if'', start = 0, endpos = 2,
                    line = 0, column = 2, tvalue = None\<rparr>,
                  \<lparr>tokenType = ''PAREN'', lexeme = ''('', start = 3, endpos = 4,
                    line = 0, column = 4, tvalue = None\<rparr>],
      currentPosition = 0, errors = [], source = ''if (''\<rparr>"

section \<open>The lexer with its \<open>RegExp\<close> objects\<close>

text \<open>
  A \<open>RegExp\<close> object carries state: with the sticky or the global flag, matching
  reads and writes its \<open>lastIndex\<close>, which \<open>tokenize\<close> does not reset.  This
  section has the lexer again with that state: a \<open>RegExp\<close> is its pattern (what a
  match attempt of a string at an index gives: the end index, if it succeeds), its
  two flags and its \<open>lastIndex\<close>.
\<close>

record RegExp =
  matcher :: "string \<Rightarrow> nat \<Rightarrow> nat option"
  global :: bool
  sticky :: bool
  lastIndex :: nat

text \<open>The first index of a list at which an attempt succeeds, with the end index.\<close>

fun first_match :: "(nat \<Rightarrow> nat option) \<Rightarrow> nat list \<Rightarrow> (nat \<times> nat) option" where
  "first_match f [] = None"
| "first_match f (i # is) = (case f i of Some e \<Rightarrow> Some (i, e) | None \<Rightarrow> first_match f is)"

text \<open>
  \<open>RegExpBuiltinExec\<close> of ECMAScript: the index and the end index of the match, if
  any, and the \<open>RegExp\<close> after the call.  With neither flag the search starts at \<open>0\<close>
  and \<open>lastIndex\<close> is neither read nor written.  With the sticky flag the only
  attempt is at \<open>lastIndex\<close>, which becomes the end index on a match and \<open>0\<close> on a
  failure.  With the global flag alone the search starts at \<open>lastIndex\<close>, which is
  written likewise.
\<close>

definition exec :: "RegExp \<Rightarrow> string \<Rightarrow> (nat \<times> nat) option \<times> RegExp" where
  "exec R s =
     (let i0 = (if \<not> global R \<and> \<not> sticky R then 0 else lastIndex R) in
      if sticky R then
        (if i0 > length s then (None, R\<lparr>lastIndex := 0\<rparr>)
         else (case matcher R s i0 of
                 None \<Rightarrow> (None, R\<lparr>lastIndex := 0\<rparr>)
               | Some e \<Rightarrow> (Some (i0, e), R\<lparr>lastIndex := e\<rparr>)))
      else
        (case first_match (matcher R s) [i0 ..< Suc (length s)] of
           None \<Rightarrow> (None, if global R then R\<lparr>lastIndex := 0\<rparr> else R)
         | Some (i, e) \<Rightarrow> (Some (i, e), if global R then R\<lparr>lastIndex := e\<rparr> else R)))"

text \<open>
  \<open>s.match(R)\<close>.  Without the global flag it is the result of \<open>exec\<close>, which has an
  \<open>index\<close>.  With the global flag \<open>lastIndex\<close> is set to \<open>0\<close>, the matches are
  collected until an \<open>exec\<close> fails, which leaves \<open>lastIndex\<close> at \<open>0\<close>, and what is
  returned is the array of the matches, which has no \<open>index\<close>, or \<open>null\<close> when there
  is none.
\<close>

datatype match_array = Exec_result nat nat | All_matches

definition str_match :: "string \<Rightarrow> RegExp \<Rightarrow> match_array option \<times> RegExp" where
  "str_match s R =
     (if global R then
        (case fst (exec (R\<lparr>lastIndex := 0\<rparr>) s) of
           None \<Rightarrow> (None, R\<lparr>lastIndex := 0\<rparr>)
         | Some _ \<Rightarrow> (Some All_matches, R\<lparr>lastIndex := 0\<rparr>))
      else
        (case exec R s of
           (None, R') \<Rightarrow> (None, R')
         | (Some (i, e), R') \<Rightarrow> (Some (Exec_result i e), R')))"

text \<open>A rule refers to its \<open>RegExp\<close> object by an address; the objects are in
  \<open>regexps\<close>, and two rules may share one.  The other fields are those of
  \<open>TokenTemplate\<close> and \<open>Lexer\<close>.\<close>

record 'v TokenTemplate_re =
  tokenType_re :: string
  regexPattern_re :: nat
  callback_re :: "(string \<Rightarrow> 'v) option"

record 'v lexer_re =
  templates_re :: "'v TokenTemplate_re list"
  tokens_re :: "'v token list"
  start_re :: nat
  line_re :: nat
  column_re :: nat
  regexps :: "nat \<Rightarrow> RegExp"

text \<open>\<open>Lexer.match\<close>, \<open>Lexer.accept\<close>, the two loops of \<open>tokenize\<close> and
  \<open>Lexer.tokenize\<close>, as above, with the \<open>RegExp\<close> of the rule read from and written
  back to \<open>regexps\<close>.  A result without \<open>index\<close> fails the test
  \<open>match.index != 0\<close> as \<open>undefined != 0\<close> holds.\<close>

definition match_re ::
  "'v TokenTemplate_re \<Rightarrow> string \<Rightarrow> 'v lexer_re \<Rightarrow> 'v token option \<times> 'v lexer_re" where
  "match_re template text L =
     (let ln = line_re L; col = column_re L;
          s = drop (start_re L) text;
          (m, R') = str_match s (regexps L (regexPattern_re template));
          L' = L\<lparr>regexps := (regexps L)(regexPattern_re template := R')\<rparr>
      in case m of
           None \<Rightarrow> (None, L')
         | Some All_matches \<Rightarrow> (None, L')
         | Some (Exec_result idx e) \<Rightarrow>
             if idx \<noteq> 0 then (None, L')
             else
               let lx = take e s;
                   en = start_re L' + length lx;
                   (ln', col') = scan_lexeme lx (ln, col);
                   tok = \<lparr>tokenType = tokenType_re template, lexeme = lx, start = start_re L',
                           endpos = en, line = ln', column = col', tvalue = None\<rparr>
               in (Some (case callback_re template of
                           None \<Rightarrow> tok
                         | Some f \<Rightarrow> tok\<lparr>tvalue := Some (f lx)\<rparr>), L'))"

definition accept_re :: "'v token \<Rightarrow> 'v lexer_re \<Rightarrow> 'v lexer_re" where
  "accept_re tok L =
     (let L1 = L\<lparr>tokens_re := tokens_re L @ [tok]\<rparr>;
          L2 = (if line tok \<noteq> line_re L1 then L1\<lparr>column_re := 0\<rparr>
                else L1\<lparr>column_re := column_re L1 + (endpos tok - start tok)\<rparr>);
          L3 = L2\<lparr>start_re := endpos tok\<rparr>
      in L3\<lparr>line_re := line tok\<rparr>)"

fun try_templates_re ::
  "'v TokenTemplate_re list \<Rightarrow> string \<Rightarrow> 'v token option \<Rightarrow> 'v lexer_re
     \<Rightarrow> 'v token option \<times> 'v lexer_re" where
  "try_templates_re [] text b L = (b, L)"
| "try_templates_re (t # ts) text b L =
     (case match_re t text L of
        (None, L1) \<Rightarrow> try_templates_re ts text b L1
      | (Some tok, L1) \<Rightarrow>
          (case b of
             None \<Rightarrow> try_templates_re ts text (Some tok) L1
           | Some b0 \<Rightarrow> try_templates_re ts text (Some (best b0 tok)) L1))"

partial_function (option) scan_loop_re ::
  "string \<Rightarrow> 'v lexer_re \<Rightarrow> ('v lexer_re \<times> UnexpectedCharacterError option) option" where
  "scan_loop_re text L =
     (if start_re L < length text then
        (case try_templates_re (templates_re L) text None L of
           (None, L1) \<Rightarrow>
             Some (L1, Some (new_UnexpectedCharacterError
                               (index (split NEWLINE text) (line_re L1))
                               (line_re L1) (column_re L1)))
         | (Some b, L1) \<Rightarrow> scan_loop_re text (accept_re b L1))
      else Some (L, None))"

declare scan_loop_re.simps [code]

definition tokenize_re ::
  "'v lexer_re \<Rightarrow> string \<Rightarrow> string list
     \<Rightarrow> ('v lexer_re \<times> (UnexpectedCharacterError + 'v token list)) option" where
  "tokenize_re L text filterTypes =
     (let L0 = L\<lparr>tokens_re := [], start_re := 0, column_re := 0, line_re := 0\<rparr> in
      case scan_loop_re text L0 of
        None \<Rightarrow> None
      | Some (L1, Some err) \<Rightarrow> Some (L1, Inl err)
      | Some (L1, None) \<Rightarrow>
          Some (L1, Inr (filter (\<lambda>x. tokenType x \<notin> set filterTypes) (tokens_re L1))))"

text \<open>The lexer as \<open>tokenize\<close> sets it on entry: the \<open>RegExp\<close> objects are left as
  they are.\<close>

definition fresh_re :: "'v lexer_re \<Rightarrow> 'v lexer_re" where
  "fresh_re L = L\<lparr>tokens_re := [], start_re := 0, column_re := 0, line_re := 0\<rparr>"

text \<open>No rule has a pattern that is sticky without being global.\<close>

definition no_sticky_pattern :: "'v lexer_re \<Rightarrow> bool" where
  "no_sticky_pattern L \<longleftrightarrow>
     (\<forall>t\<in>set (templates_re L).
        sticky (regexps L (regexPattern_re t)) \<longrightarrow> global (regexps L (regexPattern_re t)))"

text \<open>Two \<open>RegExp\<close> objects are alike when they differ at most in a \<open>lastIndex\<close>
  that matching does not read (one of a pattern that is not sticky, or is global);
  two lexers are similar when they differ at most so; and \<open>kept L K\<close> says that \<open>K\<close>
  has the rules of \<open>L\<close> and its \<open>RegExp\<close> objects up to the \<open>lastIndex\<close> of those the
  rules refer to.\<close>

definition alike :: "RegExp \<Rightarrow> RegExp \<Rightarrow> bool" where
  "alike R1 R2 \<longleftrightarrow>
     matcher R1 = matcher R2 \<and> global R1 = global R2 \<and> sticky R1 = sticky R2
   \<and> (sticky R1 \<and> \<not> global R1 \<longrightarrow> lastIndex R1 = lastIndex R2)"

definition sim :: "'v lexer_re \<Rightarrow> 'v lexer_re \<Rightarrow> bool" where
  "sim L1 L2 \<longleftrightarrow>
     templates_re L1 = templates_re L2 \<and> tokens_re L1 = tokens_re L2
   \<and> start_re L1 = start_re L2 \<and> line_re L1 = line_re L2 \<and> column_re L1 = column_re L2
   \<and> (\<forall>a. alike (regexps L1 a) (regexps L2 a))"

definition kept :: "'v lexer_re \<Rightarrow> 'v lexer_re \<Rightarrow> bool" where
  "kept L K \<longleftrightarrow>
     templates_re K = templates_re L
   \<and> (\<forall>a. matcher (regexps K a) = matcher (regexps L a)
          \<and> global (regexps K a) = global (regexps L a)
          \<and> sticky (regexps K a) = sticky (regexps L a)
          \<and> (lastIndex (regexps K a) \<noteq> lastIndex (regexps L a)
                \<longrightarrow> a \<in> regexPattern_re ` set (templates_re L)))"

text \<open>The pattern \<open>a\<close>, as a \<open>RegExp\<close> with the given flags and \<open>lastIndex\<close>, and
  the lexer \<open>new Lexer(Token).addRule("A", R)\<close> for it.\<close>

definition lit_at :: "string \<Rightarrow> string \<Rightarrow> nat \<Rightarrow> nat option" where
  "lit_at lit s i = (if prefix lit (drop i s) then Some (i + length lit) else None)"

definition a_regexp :: "bool \<Rightarrow> bool \<Rightarrow> nat \<Rightarrow> RegExp" where
  "a_regexp g y li = \<lparr>matcher = lit_at ''a'', global = g, sticky = y, lastIndex = li\<rparr>"

definition a_lexer :: "bool \<Rightarrow> bool \<Rightarrow> nat \<Rightarrow> unit lexer_re" where
  "a_lexer g y li =
     \<lparr>templates_re = [\<lparr>tokenType_re = ''A'', regexPattern_re = 0, callback_re = None\<rparr>],
      tokens_re = [], start_re = 0, line_re = 0, column_re = 0,
      regexps = (\<lambda>a. a_regexp g y li)\<rparr>"

section \<open>The scan: state, selection, termination\<close>

lemma newlines_append: "newlines (a @ b) = newlines a + newlines b"
  by (simp add: newlines_def)

lemma after_last_newline_append:
  "after_last_newline (a @ b) =
     (if NEWLINE \<in> set b then after_last_newline b else after_last_newline a + length b)"
  by (auto simp: after_last_newline_def takeWhile_append)

lemma after_last_newline_Cons:
  "after_last_newline (c # cs) =
     (if NEWLINE \<in> set cs then after_last_newline cs
      else if c = NEWLINE then length cs else Suc (length cs))"
  using after_last_newline_append [of "[c]" cs]
  by (auto simp: after_last_newline_def)

lemma scan_lexeme_eq:
  "scan_lexeme lx (ln, col) =
     (ln + newlines lx, if NEWLINE \<in> set lx then after_last_newline lx else col + length lx)"
proof (induction lx arbitrary: ln col)
  case Nil
  show ?case by (simp add: newlines_def)
next
  case (Cons c cs)
  show ?case
    by (simp add: Cons.IH after_last_newline_Cons newlines_def)
qed

lemma match_state: "snd (match t text L) = L"
  by (simp add: match_def Let_def split: option.splits prod.splits)

lemma try_templates_state: "snd (try_templates ts text b L) = L"
proof (induction ts arbitrary: b)
  case Nil
  show ?case by simp
next
  case (Cons t ts)
  have "snd (match t text L) = L" by (rule match_state)
  then show ?case
    by (cases "match t text L") (auto simp: Cons.IH split: option.splits)
qed

lemma match_Some:
  assumes "fst (match t text L) = Some tok"
  shows "anchored (regexPattern t) text (cur_start L) = Some (lexeme tok)"
    and "tokenType tok = ruleType t"
    and "start tok = cur_start L"
    and "endpos tok = cur_start L + length (lexeme tok)"
    and "line tok = cur_line L + newlines (lexeme tok)"
    and "column tok = (if NEWLINE \<in> set (lexeme tok) then after_last_newline (lexeme tok)
                       else cur_column L + length (lexeme tok))"
  using assms
  by (auto simp: match_def anchored_def Let_def scan_lexeme_eq split: option.splits prod.splits if_splits)

lemma match_None:
  "fst (match t text L) = None \<longleftrightarrow> anchored (regexPattern t) text (cur_start L) = None"
  by (auto simp: match_def anchored_def Let_def split: option.splits prod.splits if_splits)

lemma anchored_match:
  assumes "anchored (regexPattern t) text (cur_start L) = Some lx"
  shows "\<exists>tok. fst (match t text L) = Some tok \<and> lexeme tok = lx"
proof (cases "fst (match t text L)")
  case None
  with assms show ?thesis by (simp add: match_None)
next
  case (Some tok)
  from match_Some(1) [OF Some] assms show ?thesis using Some by simp
qed


lemma try_templates_from_Some:
  assumes "fst (try_templates ts text (Some b0) L) = Some r"
  shows "(r = b0 \<and> (\<forall>t\<in>set ts. \<forall>tok. fst (match t text L) = Some tok \<longrightarrow>
                        length (lexeme tok) \<le> length (lexeme b0)))
       \<or> (length (lexeme b0) < length (lexeme r) \<and>
           (\<exists>pre t post. ts = pre @ t # post \<and> fst (match t text L) = Some r \<and>
              (\<forall>u\<in>set pre. \<forall>tok. fst (match u text L) = Some tok \<longrightarrow>
                  length (lexeme tok) < length (lexeme r)) \<and>
              (\<forall>u\<in>set post. \<forall>tok. fst (match u text L) = Some tok \<longrightarrow>
                  length (lexeme tok) \<le> length (lexeme r))))"
  using assms
proof (induction ts arbitrary: b0)
  case Nil
  then show ?case by simp
next
  case (Cons t ts)
  have st: "snd (match t text L) = L" by (rule match_state)
  show ?case
  proof (cases "fst (match t text L)")
    case None
    with st have m: "match t text L = (None, L)" by (metis prod.collapse)
    from Cons.prems m have "fst (try_templates ts text (Some b0) L) = Some r" by simp
    from Cons.IH [OF this] show ?thesis
    proof
      assume "r = b0 \<and> (\<forall>t\<in>set ts. \<forall>tok. fst (match t text L) = Some tok \<longrightarrow>
                        length (lexeme tok) \<le> length (lexeme b0))"
      with None show ?thesis by auto
    next
      assume "length (lexeme b0) < length (lexeme r) \<and>
           (\<exists>pre t post. ts = pre @ t # post \<and> fst (match t text L) = Some r \<and>
              (\<forall>u\<in>set pre. \<forall>tok. fst (match u text L) = Some tok \<longrightarrow>
                  length (lexeme tok) < length (lexeme r)) \<and>
              (\<forall>u\<in>set post. \<forall>tok. fst (match u text L) = Some tok \<longrightarrow>
                  length (lexeme tok) \<le> length (lexeme r)))"
      then obtain pre t' post where lt: "length (lexeme b0) < length (lexeme r)"
        and d: "ts = pre @ t' # post" "fst (match t' text L) = Some r"
        and p: "\<forall>u\<in>set pre. \<forall>tok. fst (match u text L) = Some tok \<longrightarrow>
                  length (lexeme tok) < length (lexeme r)"
        and q: "\<forall>u\<in>set post. \<forall>tok. fst (match u text L) = Some tok \<longrightarrow>
                  length (lexeme tok) \<le> length (lexeme r)"
        by blast
      from d have "t # ts = (t # pre) @ t' # post" by simp
      moreover from p None have "\<forall>u\<in>set (t # pre). \<forall>tok. fst (match u text L) = Some tok \<longrightarrow>
                  length (lexeme tok) < length (lexeme r)" by simp
      ultimately show ?thesis using lt d(2) q by blast
    qed
  next
    case (Some tok)
    with st have m: "match t text L = (Some tok, L)" by (metis prod.collapse)
    show ?thesis
    proof (cases "length (lexeme b0) \<ge> length (lexeme tok)")
      case True
      with Cons.prems m have "fst (try_templates ts text (Some b0) L) = Some r"
        by (simp add: best_def)
      from Cons.IH [OF this] show ?thesis
      proof
        assume "r = b0 \<and> (\<forall>t\<in>set ts. \<forall>tok. fst (match t text L) = Some tok \<longrightarrow>
                        length (lexeme tok) \<le> length (lexeme b0))"
        with Some True show ?thesis by auto
      next
        assume "length (lexeme b0) < length (lexeme r) \<and>
           (\<exists>pre t post. ts = pre @ t # post \<and> fst (match t text L) = Some r \<and>
              (\<forall>u\<in>set pre. \<forall>tok. fst (match u text L) = Some tok \<longrightarrow>
                  length (lexeme tok) < length (lexeme r)) \<and>
              (\<forall>u\<in>set post. \<forall>tok. fst (match u text L) = Some tok \<longrightarrow>
                  length (lexeme tok) \<le> length (lexeme r)))"
        then obtain pre t' post where lt: "length (lexeme b0) < length (lexeme r)"
          and d: "ts = pre @ t' # post" "fst (match t' text L) = Some r"
          and p: "\<forall>u\<in>set pre. \<forall>tok. fst (match u text L) = Some tok \<longrightarrow>
                  length (lexeme tok) < length (lexeme r)"
          and q: "\<forall>u\<in>set post. \<forall>tok. fst (match u text L) = Some tok \<longrightarrow>
                  length (lexeme tok) \<le> length (lexeme r)"
          by blast
        from d have "t # ts = (t # pre) @ t' # post" by simp
        moreover from p Some True lt
        have "\<forall>u\<in>set (t # pre). \<forall>tok. fst (match u text L) = Some tok \<longrightarrow>
                  length (lexeme tok) < length (lexeme r)" by auto
        ultimately show ?thesis using lt d(2) q by blast
      qed
    next
      case False
      with Cons.prems m have "fst (try_templates ts text (Some tok) L) = Some r"
        by (simp add: best_def)
      from Cons.IH [OF this] show ?thesis
      proof
        assume a: "r = tok \<and> (\<forall>t\<in>set ts. \<forall>tok'. fst (match t text L) = Some tok' \<longrightarrow>
                        length (lexeme tok') \<le> length (lexeme tok))"
        have "t # ts = [] @ t # ts" by simp
        moreover have "\<forall>u\<in>set ([]::'a TokenTemplate list). \<forall>tok. fst (match u text L) = Some tok \<longrightarrow>
                  length (lexeme tok) < length (lexeme r)" by simp
        ultimately show ?thesis using a Some False by (metis not_le)
      next
        assume "length (lexeme tok) < length (lexeme r) \<and>
           (\<exists>pre t post. ts = pre @ t # post \<and> fst (match t text L) = Some r \<and>
              (\<forall>u\<in>set pre. \<forall>tok. fst (match u text L) = Some tok \<longrightarrow>
                  length (lexeme tok) < length (lexeme r)) \<and>
              (\<forall>u\<in>set post. \<forall>tok. fst (match u text L) = Some tok \<longrightarrow>
                  length (lexeme tok) \<le> length (lexeme r)))"
        then obtain pre t' post where lt: "length (lexeme tok) < length (lexeme r)"
          and d: "ts = pre @ t' # post" "fst (match t' text L) = Some r"
          and p: "\<forall>u\<in>set pre. \<forall>tok. fst (match u text L) = Some tok \<longrightarrow>
                  length (lexeme tok) < length (lexeme r)"
          and q: "\<forall>u\<in>set post. \<forall>tok. fst (match u text L) = Some tok \<longrightarrow>
                  length (lexeme tok) \<le> length (lexeme r)"
          by blast
        from d have "t # ts = (t # pre) @ t' # post" by simp
        moreover from p Some lt
        have "\<forall>u\<in>set (t # pre). \<forall>tok. fst (match u text L) = Some tok \<longrightarrow>
                  length (lexeme tok) < length (lexeme r)" by auto
        moreover from lt False have "length (lexeme b0) < length (lexeme r)" by simp
        ultimately show ?thesis using d(2) q by blast
      qed
    qed
  qed
qed


lemma scan_loop_rule:
  assumes run: "scan_loop text L = Some (L', r)"
    and init: "I L"
    and step: "\<And>M b. I M \<Longrightarrow> cur_start M < length text \<Longrightarrow>
                 fst (try_templates (templates M) text None M) = Some b \<Longrightarrow> I (accept b M)"
  shows "I L' \<and> exit_ok text L' r"
proof -
  have "I (fst y) \<and> exit_ok text (fst y) (snd y)"
    if "scan_loop s K = Some y" "s = text" "I K" for s K y
    using that
  proof (induction s K y rule: scan_loop.raw_induct)
    case (1 loop s M y)
    have st: "snd (try_templates (templates M) s None M) = M" by (rule try_templates_state)
    show ?case
    proof (cases "cur_start M < length s")
      case False
      with 1(2) have "y = (M, None)" by simp
      with False 1 show ?thesis by (simp add: exit_ok_def)
    next
      case True
      show ?thesis
      proof (cases "fst (try_templates (templates M) s None M)")
        case None
        with st have "try_templates (templates M) s None M = (None, M)" by (metis prod.collapse)
        with True 1 have "y = (M, Some (new_UnexpectedCharacterError
                               (index (split NEWLINE s) (cur_line M))
                               (cur_line M) (cur_column M)))" by simp
        with None True 1 show ?thesis by (simp add: exit_ok_def)
      next
        case (Some b)
        with st have tt: "try_templates (templates M) s None M = (Some b, M)" by (metis prod.collapse)
        with True 1 have "loop s (accept b M) = Some y" by simp
        moreover have "scan_loop s M = scan_loop s (accept b M)"
          using True tt by (subst scan_loop.simps) simp
        with 1 have "scan_loop s (accept b M) = Some y" by simp
        moreover from step [of M b] 1 True Some have "I (accept b M)" by simp
        ultimately show ?thesis using 1 by blast
      qed
    qed
  qed (rule that(1))
  from this [OF run refl init] show ?thesis by simp
qed

lemma try_templates_None_start:
  assumes "fst (try_templates ts text None L) = Some r"
  shows "\<exists>pre t post. ts = pre @ t # post \<and> fst (match t text L) = Some r \<and>
              (\<forall>u\<in>set pre. \<forall>tok. fst (match u text L) = Some tok \<longrightarrow>
                  length (lexeme tok) < length (lexeme r)) \<and>
              (\<forall>u\<in>set post. \<forall>tok. fst (match u text L) = Some tok \<longrightarrow>
                  length (lexeme tok) \<le> length (lexeme r))"
  using assms
proof (induction ts)
  case Nil
  then show ?case by simp
next
  case (Cons t ts)
  have st: "snd (match t text L) = L" by (rule match_state)
  show ?case
  proof (cases "fst (match t text L)")
    case None
    with st have m: "match t text L = (None, L)" by (metis prod.collapse)
    from Cons.prems m have "fst (try_templates ts text None L) = Some r" by simp
    from Cons.IH [OF this] obtain pre t' post where
          d: "ts = pre @ t' # post" "fst (match t' text L) = Some r"
        and p: "\<forall>u\<in>set pre. \<forall>tok. fst (match u text L) = Some tok \<longrightarrow>
                  length (lexeme tok) < length (lexeme r)"
        and q: "\<forall>u\<in>set post. \<forall>tok. fst (match u text L) = Some tok \<longrightarrow>
                  length (lexeme tok) \<le> length (lexeme r)"
        by blast
    from d have "t # ts = (t # pre) @ t' # post" by simp
    moreover from p None have "\<forall>u\<in>set (t # pre). \<forall>tok. fst (match u text L) = Some tok \<longrightarrow>
                  length (lexeme tok) < length (lexeme r)" by simp
    ultimately show ?thesis using d(2) q by blast
  next
    case (Some tok)
    with st have m: "match t text L = (Some tok, L)" by (metis prod.collapse)
    with Cons.prems have "fst (try_templates ts text (Some tok) L) = Some r" by simp
    from try_templates_from_Some [OF this] show ?thesis
    proof
      assume a: "r = tok \<and> (\<forall>t\<in>set ts. \<forall>tok'. fst (match t text L) = Some tok' \<longrightarrow>
                        length (lexeme tok') \<le> length (lexeme tok))"
      have "t # ts = [] @ t # ts" by simp
      moreover have "\<forall>u\<in>set ([]::'a TokenTemplate list). \<forall>tok. fst (match u text L) = Some tok \<longrightarrow>
                  length (lexeme tok) < length (lexeme r)" by simp
      ultimately show ?thesis using a Some by blast
    next
      assume "length (lexeme tok) < length (lexeme r) \<and>
           (\<exists>pre t post. ts = pre @ t # post \<and> fst (match t text L) = Some r \<and>
              (\<forall>u\<in>set pre. \<forall>tok. fst (match u text L) = Some tok \<longrightarrow>
                  length (lexeme tok) < length (lexeme r)) \<and>
              (\<forall>u\<in>set post. \<forall>tok. fst (match u text L) = Some tok \<longrightarrow>
                  length (lexeme tok) \<le> length (lexeme r)))"
      then obtain pre t' post where lt: "length (lexeme tok) < length (lexeme r)"
          and d: "ts = pre @ t' # post" "fst (match t' text L) = Some r"
          and p: "\<forall>u\<in>set pre. \<forall>tok. fst (match u text L) = Some tok \<longrightarrow>
                  length (lexeme tok) < length (lexeme r)"
          and q: "\<forall>u\<in>set post. \<forall>tok. fst (match u text L) = Some tok \<longrightarrow>
                  length (lexeme tok) \<le> length (lexeme r)"
        by blast
      from d have "t # ts = (t # pre) @ t' # post" by simp
      moreover from p Some lt
      have "\<forall>u\<in>set (t # pre). \<forall>tok. fst (match u text L) = Some tok \<longrightarrow>
                  length (lexeme tok) < length (lexeme r)" by auto
      ultimately show ?thesis using d(2) q by blast
    qed
  qed
qed

lemma try_templates_None_result:
  "fst (try_templates ts text None L) = None \<Longrightarrow> t \<in> set ts \<Longrightarrow> fst (match t text L) = None"
proof (induction ts)
  case Nil
  then show ?case by simp
next
  case (Cons u us)
  have st: "snd (match u text L) = L" by (rule match_state)
  show ?case
  proof (cases "fst (match u text L)")
    case None
    with st have m: "match u text L = (None, L)" by (metis prod.collapse)
    with Cons show ?thesis using None by auto
  next
    case (Some tok)
    with st have m: "match u text L = (Some tok, L)" by (metis prod.collapse)
    with Cons.prems(1) have e: "fst (try_templates us text (Some tok) L) = None" by simp
    have "\<exists>y. fst (try_templates vs text (Some c) L) = Some y" for vs c
    proof (induction vs arbitrary: c)
      case Nil
      show ?case by simp
    next
      case (Cons v vs)
      have "snd (match v text L) = L" by (rule match_state)
      then show ?case
        by (cases "match v text L") (auto simp: Cons.IH split: option.splits)
    qed
    with e show ?thesis by (metis option.distinct(1))
  qed
qed


lemma accept_fields:
  "templates (accept b L) = templates L"
  "tokens (accept b L) = tokens L @ [b]"
  "cur_start (accept b L) = endpos b"
  "cur_line (accept b L) = line b"
  "cur_column (accept b L) =
     (if line b \<noteq> cur_line L then 0 else cur_column L + (endpos b - start b))"
  by (simp_all add: accept_def Let_def)

lemma successively_nth:
  "successively P xs \<Longrightarrow> Suc i < length xs \<Longrightarrow> P (xs ! i) (xs ! Suc i)"
proof (induction xs arbitrary: i)
  case Nil
  then show ?case by simp
next
  case (Cons x xs)
  then show ?case by (cases i) (auto simp: successively_Cons hd_conv_nth)
qed

lemma selected_is_match:
  assumes "fst (try_templates ts text None L) = Some b"
  shows "\<exists>t\<in>set ts. fst (match t text L) = Some b"
  using try_templates_None_start [OF assms] by auto

lemma match_within:
  assumes "fst (match t text L) = Some tok"
  shows "take (endpos tok) text = take (cur_start L) text @ lexeme tok"
    and "endpos tok \<le> length text \<or> cur_start L > length text"
proof -
  from assms obtain n where lx: "lexeme tok = take n (drop (cur_start L) text)"
    and e: "endpos tok = cur_start L + length (lexeme tok)"
    by (auto simp: match_def Let_def split: option.splits prod.splits if_splits)
  have "take (cur_start L + length (take n (drop (cur_start L) text))) text
          = take (cur_start L) text @ take n (drop (cur_start L) text)"
    by (simp add: take_add min_def)
  with lx e show "take (endpos tok) text = take (cur_start L) text @ lexeme tok" by simp
  from lx e show "endpos tok \<le> length text \<or> cur_start L > length text" by auto
qed

lemma match_nonempty:
  assumes "fst (match t text L) = Some tok"
    and "regexPattern t (drop (cur_start L) text) \<noteq> Some (0, 0)"
    and "cur_start L < length text"
  shows "lexeme tok \<noteq> []"
  using assms
  by (auto simp: match_def Let_def split: option.splits prod.splits if_splits)

lemma scan_loop_terminates:
  assumes "no_zero_width (templates L)"
  shows "\<exists>y. scan_loop text L = Some y"
  using assms
proof (induction "length text - cur_start L" arbitrary: L rule: less_induct)
  case less
  have st: "snd (try_templates (templates L) text None L) = L" by (rule try_templates_state)
  show ?case
  proof (cases "cur_start L < length text")
    case False
    then show ?thesis by (subst scan_loop.simps) simp
  next
    case True
    show ?thesis
    proof (cases "fst (try_templates (templates L) text None L)")
      case None
      with st have "try_templates (templates L) text None L = (None, L)" by (metis prod.collapse)
      with True show ?thesis by (subst scan_loop.simps) simp
    next
      case (Some b)
      with st have tt: "try_templates (templates L) text None L = (Some b, L)"
        by (metis prod.collapse)
      from selected_is_match [OF Some] obtain t where t: "t \<in> set (templates L)"
        and m: "fst (match t text L) = Some b" by blast
      from t less.prems have "regexPattern t (drop (cur_start L) text) \<noteq> Some (0, 0)"
        by (simp add: no_zero_width_def)
      from match_nonempty [OF m this True] have "lexeme b \<noteq> []" .
      with match_Some(4) [OF m] have "cur_start L < endpos b" by simp
      with True have "length text - cur_start (accept b L) < length text - cur_start L"
        by (simp add: accept_fields)
      moreover from less.prems have "no_zero_width (templates (accept b L))"
        by (simp add: accept_fields)
      ultimately have "\<exists>y. scan_loop text (accept b L) = Some y" by (rule less.hyps)
      moreover have "scan_loop text L = scan_loop text (accept b L)"
        using True tt by (subst scan_loop.simps) simp
      ultimately show ?thesis by simp
    qed
  qed
qed

lemma tiling_step:
  assumes inv: "tiling text L"
    and lt: "cur_start L < length text"
    and sel: "fst (try_templates (templates L) text None L) = Some b"
  shows "tiling text (accept b L)"
proof -
  from selected_is_match [OF sel] obtain t where m: "fst (match t text L) = Some b" by blast
  note ms = match_Some [OF m]
  from match_within [OF m] lt
  have w: "take (endpos b) text = take (cur_start L) text @ lexeme b"
    and le: "endpos b \<le> length text" by auto
  from inv [unfolded tiling_def] have c: "concat (map lexeme (tokens L)) = take (cur_start L) text"
    and each: "\<forall>t\<in>set (tokens L). endpos t = start t + length (lexeme t)
          \<and> take (endpos t) text = take (start t) text @ lexeme t"
    and succ: "successively (\<lambda>p t. start t = endpos p) (tokens L)"
    and ends: "if tokens L = [] then cur_start L = 0
       else start (hd (tokens L)) = 0 \<and> endpos (last (tokens L)) = cur_start L"
    by blast+
  have 1: "concat (map lexeme (tokens L @ [b])) = take (endpos b) text"
    using c w by simp
  have 2: "\<forall>t\<in>set (tokens L @ [b]). endpos t = start t + length (lexeme t)
          \<and> take (endpos t) text = take (start t) text @ lexeme t"
    using each ms(3,4) w by auto
  have 3: "successively (\<lambda>p t. start t = endpos p) (tokens L @ [b])"
    using succ ends ms(3) by (cases "tokens L = []") (simp_all add: successively_append_iff)
  have 4: "if tokens L @ [b] = [] then endpos b = 0
       else start (hd (tokens L @ [b])) = 0 \<and> endpos (last (tokens L @ [b])) = endpos b"
    using ends ms(3) by (cases "tokens L") auto
  show ?thesis
    unfolding tiling_def accept_fields using le 1 2 3 4 by blast
qed

section \<open>Runs of \<open>tokenize\<close>\<close>

lemma tokenize_cases:
  "tokenize L text fs = Some (L', r) \<longleftrightarrow>
     (\<exists>x. scan_loop text (fresh L) = Some (L', x) \<and>
          r = (case x of Some e \<Rightarrow> Inl e
               | None \<Rightarrow> Inr (filter (\<lambda>x. tokenType x \<notin> set fs) (tokens L'))))"
  by (auto simp: tokenize_def fresh_def Let_def split: option.splits)

lemma tiling_fresh: "tiling text (fresh L)"
  by (simp add: tiling_def fresh_def)

lemma tokenize_rule:
  assumes run: "tokenize L text fs = Some (L', r)"
    and init: "I (fresh L)"
    and step: "\<And>M b. I M \<Longrightarrow> cur_start M < length text \<Longrightarrow>
                 fst (try_templates (templates M) text None M) = Some b \<Longrightarrow> I (accept b M)"
  shows "I L'"
    and "case r of Inl e \<Rightarrow> exit_ok text L' (Some e)
         | Inr out \<Rightarrow> exit_ok text L' None
                      \<and> out = filter (\<lambda>x. tokenType x \<notin> set fs) (tokens L')"
proof -
  from run obtain x where loop: "scan_loop text (fresh L) = Some (L', x)"
    and r: "r = (case x of Some e \<Rightarrow> Inl e
               | None \<Rightarrow> Inr (filter (\<lambda>x. tokenType x \<notin> set fs) (tokens L')))"
    by (auto simp: tokenize_cases)
  have both: "I L' \<and> exit_ok text L' x"
    using loop init
  proof (rule scan_loop_rule)
    fix M b
    assume "I M" "cur_start M < length text"
      "fst (try_templates (templates M) text None M) = Some b"
    then show "I (accept b M)" by (rule step)
  qed
  then show "I L'" by simp
  from both r show "case r of Inl e \<Rightarrow> exit_ok text L' (Some e)
         | Inr out \<Rightarrow> exit_ok text L' None
                      \<and> out = filter (\<lambda>x. tokenType x \<notin> set fs) (tokens L')"
    by (cases x) simp_all
qed

lemma tokenize_tiling:
  assumes "tokenize L text fs = Some (L', r)"
  shows "tiling text L'"
  using assms tiling_fresh
proof (rule tokenize_rule(1))
  fix M b
  assume "tiling text M" "cur_start M < length text"
    "fst (try_templates (templates M) text None M) = Some b"
  then show "tiling text (accept b M)" by (rule tiling_step)
qed

lemma tokenize_Inr_all:
  assumes "tokenize L text fs = Some (L', Inr out)"
  shows "concat (map lexeme (tokens L')) = text"
    and "out = filter (\<lambda>x. tokenType x \<notin> set fs) (tokens L')"
    and "cur_start L' = length text"
proof -
  have "case Inr out of Inl e \<Rightarrow> exit_ok text L' (Some e)
         | Inr out \<Rightarrow> exit_ok text L' None
                      \<and> out = filter (\<lambda>x. tokenType x \<notin> set fs) (tokens L')"
    using assms by (rule tokenize_rule(2) [where I = "\<lambda>K. True"]) simp_all
  then have e: "length text \<le> cur_start L'"
    and o: "out = filter (\<lambda>x. tokenType x \<notin> set fs) (tokens L')"
    by (simp_all add: exit_ok_def)
  from o show "out = filter (\<lambda>x. tokenType x \<notin> set fs) (tokens L')" .
  from tokenize_tiling [OF assms] e show "cur_start L' = length text"
    by (simp add: tiling_def)
  with tokenize_tiling [OF assms] show "concat (map lexeme (tokens L')) = text"
    by (simp add: tiling_def)
qed

lemma tokenize_terminates:
  assumes "no_zero_width (templates L)"
  shows "\<exists>L' r. tokenize L text fs = Some (L', r)"
proof -
  from assms have "no_zero_width (templates (fresh L))" by (simp add: fresh_def)
  from scan_loop_terminates [OF this] obtain L' x where "scan_loop text (fresh L) = Some (L', x)"
    by fastforce
  then show ?thesis by (auto simp: tokenize_cases)
qed

lemma re_plus_not_zero: "re_plus P s \<noteq> Some (i, 0)"
proof -
  have "takeWhile P (dropWhile (\<lambda>c. \<not> P c) s) \<noteq> []" if "dropWhile (\<lambda>c. \<not> P c) s \<noteq> []"
    using that hd_dropWhile [OF that] by (cases "dropWhile (\<lambda>c. \<not> P c) s") auto
  then show ?thesis by (auto simp: re_plus_def Let_def)
qed

lemma letter_lexer_no_zero_width: "no_zero_width (templates letter_lexer)"
  by (simp add: no_zero_width_def letter_lexer_def addRule_def new_Lexer_def re_plus_not_zero)

section \<open>Invariants of the scan\<close>

lemma selected_chosen:
  assumes sel: "fst (try_templates (templates M) text None M) = Some b"
  shows "chosen (templates M) text b"
proof -
  from try_templates_None_start [OF sel] obtain pre t post where
        d: "templates M = pre @ t # post" and m: "fst (match t text M) = Some b"
    and p: "\<forall>u\<in>set pre. \<forall>tok. fst (match u text M) = Some tok \<longrightarrow>
              length (lexeme tok) < length (lexeme b)"
    and q: "\<forall>u\<in>set post. \<forall>tok. fst (match u text M) = Some tok \<longrightarrow>
              length (lexeme tok) \<le> length (lexeme b)"
    by blast
  note ms = match_Some [OF m]
  have p': "length lx < length (lexeme b)"
    if "u \<in> set pre" "anchored (regexPattern u) text (start b) = Some lx" for u lx
  proof -
    from that(2) ms(3) have "anchored (regexPattern u) text (cur_start M) = Some lx" by simp
    from anchored_match [OF this] obtain tok where "fst (match u text M) = Some tok"
      and "lexeme tok = lx" by blast
    with p that(1) show ?thesis by blast
  qed
  have q': "length lx \<le> length (lexeme b)"
    if "u \<in> set post" "anchored (regexPattern u) text (start b) = Some lx" for u lx
  proof -
    from that(2) ms(3) have "anchored (regexPattern u) text (cur_start M) = Some lx" by simp
    from anchored_match [OF this] obtain tok where "fst (match u text M) = Some tok"
      and "lexeme tok = lx" by blast
    with q that(1) show ?thesis by blast
  qed
  from ms(1,3) have "anchored (regexPattern t) text (start b) = Some (lexeme b)" by simp
  with d ms(2) p' q' show ?thesis unfolding chosen_def by blast
qed

lemma length_split: "length (split c s) = Suc (length (filter (\<lambda>x. x = c) s))"
  by (induction s) (auto split: list.splits)

lemma newlines_take_le: "newlines (take n s) \<le> newlines s"
proof -
  have "newlines s = newlines (take n s) + newlines (drop n s)"
    using newlines_append [of "take n s" "drop n s"] by simp
  then show ?thesis by simp
qed

lemma line_inv_fresh: "line_inv text (fresh L)"
  using tiling_fresh [of _ L] by (simp add: line_inv_def fresh_def newlines_def)

lemma line_inv_step:
  assumes inv: "line_inv text M"
    and lt: "cur_start M < length text"
    and sel: "fst (try_templates (templates M) text None M) = Some b"
  shows "line_inv text (accept b M)"
proof -
  from selected_is_match [OF sel] obtain t where m: "fst (match t text M) = Some b" by blast
  note ms = match_Some [OF m]
  from match_within(1) [OF m]
  have w: "take (endpos b) text = take (cur_start M) text @ lexeme b" .
  from inv have t: "tiling text M" and l: "cur_line M = newlines (take (cur_start M) text)"
    and each: "\<forall>t\<in>set (tokens M). line t = newlines (take (endpos t) text)"
    by (simp_all add: line_inv_def)
  from ms(5) l w have lb: "line b = newlines (take (endpos b) text)"
    by (simp add: newlines_append)
  with each have "\<forall>t\<in>set (tokens M @ [b]). line t = newlines (take (endpos t) text)" by simp
  with tiling_step [OF t lt sel] lb show ?thesis
    by (simp add: line_inv_def accept_fields)
qed

lemma after_last_newline_end:
  "s \<noteq> [] \<Longrightarrow> last s = NEWLINE \<Longrightarrow> after_last_newline s = 0"
  by (cases s rule: rev_cases) (simp_all add: after_last_newline_def)

lemma column_inv_fresh: "column_inv text (fresh L)"
  using line_inv_fresh [of _ L] by (simp add: column_inv_def fresh_def)

lemma column_inv_step:
  assumes inv: "column_inv text M"
    and lt: "cur_start M < length text"
    and sel: "fst (try_templates (templates M) text None M) = Some b"
  shows "column_inv text (accept b M)"
proof -
  from selected_is_match [OF sel] obtain t where m: "fst (match t text M) = Some b" by blast
  note ms = match_Some [OF m]
  from match_within(1) [OF m]
  have w: "take (endpos b) text = take (cur_start M) text @ lexeme b" .
  from inv have li: "line_inv text M"
    and succ: "successively (newline_law text) (tokens M)"
    and tr: "tokens M \<noteq> [] \<and> lexeme (last (tokens M)) \<noteq> []
             \<and> last (lexeme (last (tokens M))) = NEWLINE \<longrightarrow> cur_column M = 0"
    by (simp_all add: column_inv_def)
  from li have ti: "tiling text M" by (simp add: line_inv_def)
  have pair: "newline_law text (last (tokens M)) b" if ne: "tokens M \<noteq> []"
    unfolding newline_law_def
  proof
    assume e: "lexeme (last (tokens M)) \<noteq> [] \<and> last (lexeme (last (tokens M))) = NEWLINE"
    with tr ne have c0: "cur_column M = 0" by simp
    from ne have "last (tokens M) \<in> set (tokens M)" by simp
    with ti have "take (endpos (last (tokens M))) text
                    = take (start (last (tokens M))) text @ lexeme (last (tokens M))"
      unfolding tiling_def by blast
    moreover from ti ne have "endpos (last (tokens M)) = cur_start M"
      unfolding tiling_def by presburger
    ultimately have "take (cur_start M) text
                    = take (start (last (tokens M))) text @ lexeme (last (tokens M))" by simp
    moreover from e have "NEWLINE \<in> set (lexeme (last (tokens M)))"
      using last_in_set by metis
    ultimately have "after_last_newline (take (cur_start M) text) = 0"
      using e by (simp add: after_last_newline_append after_last_newline_end)
    with w c0 ms(6) show "column b = after_last_newline (take (endpos b) text)"
      by (simp add: after_last_newline_append)
  qed
  have 1: "successively (newline_law text) (tokens M @ [b])"
    using succ pair by (cases "tokens M = []") (simp_all add: successively_append_iff)
  have 2: "cur_column (accept b M) = 0" if "lexeme b \<noteq> []" "last (lexeme b) = NEWLINE"
  proof -
    from that have "NEWLINE \<in> set (lexeme b)" using last_in_set by metis
    then have "filter (\<lambda>c. c = NEWLINE) (lexeme b) \<noteq> []" by (simp add: filter_empty_conv)
    then have "newlines (lexeme b) \<noteq> 0" by (simp add: newlines_def)
    with ms(5) have "line b \<noteq> cur_line M" by simp
    then show ?thesis by (simp add: accept_fields)
  qed
  from line_inv_step [OF li lt sel] 1 2 show ?thesis
    by (simp add: column_inv_def accept_fields)
qed

lemma accept_after_match:
  assumes m: "fst (match t text K) = Some tok"
    and ne: "lexeme tok \<noteq> []" and e: "last (lexeme tok) = NEWLINE"
  shows "cur_column (accept tok K) = 0" and "column tok = 0"
proof -
  note ms = match_Some [OF m]
  from ne e have i: "NEWLINE \<in> set (lexeme tok)" using last_in_set by metis
  then have "filter (\<lambda>c. c = NEWLINE) (lexeme tok) \<noteq> []" by (simp add: filter_empty_conv)
  then have "newlines (lexeme tok) \<noteq> 0" by (simp add: newlines_def)
  with ms(5) have "line tok \<noteq> cur_line K" by simp
  then show "cur_column (accept tok K) = 0" by (simp add: accept_fields)
  from ms(6) i ne e show "column tok = 0" by (simp add: after_last_newline_end)
qed

section \<open>The cursor\<close>

lemma makeErrorMsg_Some:
  assumes "currentPosition c \<le> length (ptokens c)"
  shows "makeErrorMsg c msg =
     (let pos = currentPosition c;
          tCol = (if pos = 0 then 0 else column (ptokens c ! (pos - 1)));
          tLine = (if pos = 0 then 0 else line (ptokens c ! (pos - 1)));
          ex = (if NEWLINE \<in> set (source c) then index (split NEWLINE (source c)) tLine
                else Some (source c))
      in Some (msg @ '': '' @ [NEWLINE, TAB]
           @ ''Near here (column '' @ toString tCol @ '' on line '' @ toString tLine @ ''):''
           @ [NEWLINE, TAB, TAB] @ interpolate ex
           @ [NEWLINE, TAB, TAB] @ replicate tCol MINUS @ [CARET]))"
proof (cases "currentPosition c = 0")
  case True
  then show ?thesis by (simp add: makeErrorMsg_def Let_def)
next
  case False
  with assms have "currentPosition c - 1 < length (ptokens c)" by simp
  with False show ?thesis by (simp add: makeErrorMsg_def index_def Let_def)
qed

section \<open>Runs on the test inputs\<close>

lemmas lexer_eval = tokenize_def addRule_def new_Lexer_def scan_loop.simps match_def re_plus_def
  re_lit_def lower_def accept_def best_def NEWLINE_def index_def fresh_def mk_def Let_def

lemma run_abc123:
  "tokenize letter_lexer ''abc123'' [] =
     Some ((fresh letter_lexer)\<lparr>tokens := [mk ''LETTER'' ''abc'' 0 3 0 3],
              cur_start := 3, cur_column := 3\<rparr>,
           Inl (new_UnexpectedCharacterError (Some ''abc123'') 0 3))"
  by (simp add: lexer_eval letter_lexer_def eval_nat_numeral)

lemma run_1:
  "tokenize letter_lexer ''1'' [] =
     Some (fresh letter_lexer, Inl (new_UnexpectedCharacterError (Some ''1'') 0 0))"
  by (simp add: lexer_eval letter_lexer_def)

lemma run_a_b:
  "tokenize word_space_lexer ''a b'' [''SPACE''] =
     Some ((fresh word_space_lexer)\<lparr>tokens := [mk ''WORD'' ''a'' 0 1 0 1, mk ''SPACE'' '' '' 1 2 0 2,
                 mk ''WORD'' ''b'' 2 3 0 3], cur_start := 3, cur_column := 3\<rparr>,
           Inr [mk ''WORD'' ''a'' 0 1 0 1, mk ''WORD'' ''b'' 2 3 0 3])"
  by (simp add: lexer_eval word_space_lexer_def eval_nat_numeral)

lemma run_foo_bar:
  "tokenize word_newline_lexer (''foo'' @ [NEWLINE] @ ''bar'') [] =
     Some ((fresh word_newline_lexer)\<lparr>tokens := [mk ''WORD'' ''foo'' 0 3 0 3,
                 mk ''NEWLINE'' [NEWLINE] 3 4 1 0, mk ''WORD'' ''bar'' 4 7 1 3],
              cur_start := 7, cur_column := 3, cur_line := 1\<rparr>,
           Inr [mk ''WORD'' ''foo'' 0 3 0 3,
                 mk ''NEWLINE'' [NEWLINE] 3 4 1 0, mk ''WORD'' ''bar'' 4 7 1 3])"
  by (simp add: lexer_eval word_newline_lexer_def eval_nat_numeral)

lemma run_iffy:
  "tokenize short_long_lexer ''iffy'' [] =
     Some ((fresh short_long_lexer)\<lparr>tokens := [mk ''LONG'' ''iffy'' 0 4 0 4],
              cur_start := 4, cur_column := 4\<rparr>,
           Inr [mk ''LONG'' ''iffy'' 0 4 0 4])"
  by (simp add: lexer_eval short_long_lexer_def eval_nat_numeral)

lemma run_block:
  "tokenize block_lexer ([CHR ''a'', NEWLINE] @ ''bcd'') [] =
     Some ((fresh block_lexer)\<lparr>tokens := [mk ''A'' ([CHR ''a'', NEWLINE] @ ''bc'') 0 4 1 2,
                 mk ''D'' ''d'' 4 5 1 1],
              cur_start := 5, cur_column := 1, cur_line := 1\<rparr>,
           Inr [mk ''A'' ([CHR ''a'', NEWLINE] @ ''bc'') 0 4 1 2, mk ''D'' ''d'' 4 5 1 1])"
  by (simp add: lexer_eval block_lexer_def eval_nat_numeral)

lemma match_abc:
  "fst (match \<lparr>ruleType = ''LETTER'', regexPattern = re_plus lower, callback = None\<rparr> ''abc''
          (fresh letter_lexer)) = Some (mk ''LETTER'' ''abc'' 0 3 0 3)"
  by (simp add: lexer_eval letter_lexer_def eval_nat_numeral)

section \<open>The lexer with its \<open>RegExp\<close> objects: similar lexers\<close>

lemma alike_refl: "alike R R"
  by (simp add: alike_def)

lemma alike_sym: "alike R1 R2 \<Longrightarrow> alike R2 R1"
  by (auto simp: alike_def)

lemma sim_sym: "sim L1 L2 \<Longrightarrow> sim L2 L1"
  by (auto simp: sim_def alike_sym)

lemma alike_set: "alike R1 R2 \<Longrightarrow> R1\<lparr>lastIndex := k\<rparr> = R2\<lparr>lastIndex := k\<rparr>"
  by (cases R1, cases R2) (simp add: alike_def)

lemma alike_sticky: "alike R1 R2 \<Longrightarrow> sticky R1 \<Longrightarrow> \<not> global R1 \<Longrightarrow> R1 = R2"
  by (cases R1, cases R2) (simp add: alike_def)

lemma exec_plain:
  "\<not> global R \<Longrightarrow> \<not> sticky R \<Longrightarrow>
     exec R s = (first_match (matcher R s) [0 ..< Suc (length s)], R)"
  by (simp add: exec_def split: option.splits)

lemma exec_flags:
  "matcher (snd (exec R s)) = matcher R \<and> global (snd (exec R s)) = global R
   \<and> sticky (snd (exec R s)) = sticky R"
  by (simp add: exec_def Let_def split: option.splits prod.splits)

lemma str_match_flags:
  "matcher (snd (str_match s R)) = matcher R \<and> global (snd (str_match s R)) = global R
   \<and> sticky (snd (str_match s R)) = sticky R"
proof (cases "global R")
  case True
  then show ?thesis by (simp add: str_match_def split: option.splits)
next
  case False
  obtain m R' where e: "exec R s = (m, R')" by (cases "exec R s")
  with exec_flags [of R s] have "matcher R' = matcher R \<and> global R' = global R \<and> sticky R' = sticky R"
    by simp
  with False e show ?thesis by (simp add: str_match_def split: option.splits prod.splits)
qed

lemma str_match_alike:
  assumes "alike R1 R2"
  shows "fst (str_match s R1) = fst (str_match s R2)
       \<and> alike (snd (str_match s R1)) (snd (str_match s R2))"
proof (cases "global R1")
  case True
  with assms have g2: "global R2" by (simp add: alike_def)
  from alike_set [OF assms] have "R1\<lparr>lastIndex := 0\<rparr> = R2\<lparr>lastIndex := 0\<rparr>" .
  with True g2 have "str_match s R1 = str_match s R2"
    by (simp add: str_match_def split: option.splits)
  then show ?thesis by (simp add: alike_refl)
next
  case False
  with assms have g2: "\<not> global R2" by (simp add: alike_def)
  show ?thesis
  proof (cases "sticky R1")
    case True
    from alike_sticky [OF assms True False] show ?thesis by (simp add: alike_refl)
  next
    case ns: False
    with assms have s2: "\<not> sticky R2" by (simp add: alike_def)
    from assms have m: "matcher R1 = matcher R2" by (simp add: alike_def)
    from False ns g2 s2 m assms show ?thesis
      by (simp add: str_match_def exec_plain split: option.splits prod.splits)
  qed
qed

lemma match_re_sim:
  assumes "sim L1 L2"
  shows "fst (match_re t text L1) = fst (match_re t text L2)
       \<and> sim (snd (match_re t text L1)) (snd (match_re t text L2))"
proof -
  let ?a = "regexPattern_re t"
  let ?s = "drop (start_re L1) text"
  obtain m1 R1 where 1: "str_match ?s (regexps L1 ?a) = (m1, R1)"
    by (cases "str_match ?s (regexps L1 ?a)")
  obtain m2 R2 where 2: "str_match ?s (regexps L2 ?a) = (m2, R2)"
    by (cases "str_match ?s (regexps L2 ?a)")
  from assms have f: "templates_re L1 = templates_re L2" "tokens_re L1 = tokens_re L2"
    "start_re L1 = start_re L2" "line_re L1 = line_re L2" "column_re L1 = column_re L2"
    and al: "\<And>a. alike (regexps L1 a) (regexps L2 a)"
    by (simp_all add: sim_def)
  from str_match_alike [OF al [of ?a], of ?s] 1 2 have m: "m1 = m2" and r: "alike R1 R2" by simp_all
  have s: "sim (L1\<lparr>regexps := (regexps L1)(?a := R1)\<rparr>) (L2\<lparr>regexps := (regexps L2)(?a := R2)\<rparr>)"
    using f al r by (simp add: sim_def)
  have "snd (match_re t text L1) = L1\<lparr>regexps := (regexps L1)(?a := R1)\<rparr>"
    using 1 by (simp add: match_re_def Let_def split: option.splits match_array.splits prod.splits)
  moreover have "snd (match_re t text L2) = L2\<lparr>regexps := (regexps L2)(?a := R2)\<rparr>"
    using 2 f by (simp add: match_re_def Let_def split: option.splits match_array.splits prod.splits)
  moreover have "fst (match_re t text L1) = fst (match_re t text L2)"
    using 1 2 f m by (simp add: match_re_def Let_def split: option.splits match_array.splits prod.splits)
  ultimately show ?thesis using s by simp
qed

lemma try_templates_re_sim:
  assumes "sim L1 L2"
  shows "fst (try_templates_re ts text b L1) = fst (try_templates_re ts text b L2)
       \<and> sim (snd (try_templates_re ts text b L1)) (snd (try_templates_re ts text b L2))"
  using assms
proof (induction ts arbitrary: b L1 L2)
  case Nil
  then show ?case by simp
next
  case (Cons t ts)
  obtain m1 K1 where 1: "match_re t text L1 = (m1, K1)" by (cases "match_re t text L1")
  obtain m2 K2 where 2: "match_re t text L2 = (m2, K2)" by (cases "match_re t text L2")
  from match_re_sim [OF Cons.prems, of t "text"] 1 2 have m: "m1 = m2" and k: "sim K1 K2"
    by simp_all
  note ih = Cons.IH [OF k]
  show ?case
  proof (cases m2)
    case None
    with 1 2 m ih [of b] show ?thesis by simp
  next
    case (Some tok)
    show ?thesis
    proof (cases b)
      case None
      with Some 1 2 m ih [of "Some tok"] show ?thesis by simp
    next
      case (Some b0)
      with \<open>m2 = Some tok\<close> 1 2 m ih [of "Some (best b0 tok)"] show ?thesis by simp
    qed
  qed
qed

lemma accept_re_sim: "sim L1 L2 \<Longrightarrow> sim (accept_re b L1) (accept_re b L2)"
  by (simp add: sim_def accept_re_def Let_def)

lemma scan_loop_re_sim:
  assumes run: "scan_loop_re text L1 = Some (L1', r)" and s: "sim L1 L2"
  shows "\<exists>L2'. scan_loop_re text L2 = Some (L2', r) \<and> sim L1' L2'"
proof -
  have "\<forall>K2. sim K1 K2 \<longrightarrow> (\<exists>K2'. scan_loop_re s K2 = Some (K2', snd y) \<and> sim (fst y) K2')"
    if "scan_loop_re s K1 = Some y" for s K1 y
    using that
  proof (induction s K1 y rule: scan_loop_re.raw_induct)
    case (1 loop s K1 y)
    show ?case
    proof (intro allI impI)
      fix K2
      assume k: "sim K1 K2"
      then have st: "start_re K1 = start_re K2" "templates_re K1 = templates_re K2"
        by (simp_all add: sim_def)
      obtain b1 M1 where t1: "try_templates_re (templates_re K1) s None K1 = (b1, M1)"
        by (cases "try_templates_re (templates_re K1) s None K1")
      obtain b2 M2 where t2: "try_templates_re (templates_re K2) s None K2 = (b2, M2)"
        by (cases "try_templates_re (templates_re K2) s None K2")
      from try_templates_re_sim [OF k, of "templates_re K1" s None] t1 t2 st
      have b: "b1 = b2" and m: "sim M1 M2" by simp_all
      show "\<exists>K2'. scan_loop_re s K2 = Some (K2', snd y) \<and> sim (fst y) K2'"
      proof (cases "start_re K1 < length s")
        case False
        with 1 have "y = (K1, None)" by simp
        moreover from False st have "scan_loop_re s K2 = Some (K2, None)"
          by (subst scan_loop_re.simps) simp
        ultimately show ?thesis using k by simp
      next
        case True
        show ?thesis
        proof (cases b1)
          case None
          with True 1 t1 have "y = (M1, Some (new_UnexpectedCharacterError
                               (index (split NEWLINE s) (line_re M1))
                               (line_re M1) (column_re M1)))" by simp
          moreover from None b have "b2 = None" by simp
          with True st t2
          have "scan_loop_re s K2 = Some (M2, Some (new_UnexpectedCharacterError
                               (index (split NEWLINE s) (line_re M2))
                               (line_re M2) (column_re M2)))"
            by (subst scan_loop_re.simps) simp
          moreover from m have "line_re M1 = line_re M2" "column_re M1 = column_re M2"
            by (simp_all add: sim_def)
          ultimately show ?thesis using m by simp
        next
          case (Some tok)
          with True 1 t1 have l: "loop s (accept_re tok M1) = Some y" by simp
          have "scan_loop_re s K1 = scan_loop_re s (accept_re tok M1)"
            using True t1 Some by (subst scan_loop_re.simps) simp
          with 1 have l2: "scan_loop_re s (accept_re tok M1) = Some y" by simp
          from 1(1) [OF l l2] accept_re_sim [OF m, of tok]
          obtain K2' where "scan_loop_re s (accept_re tok M2) = Some (K2', snd y)"
            and "sim (fst y) K2'" by blast
          moreover from b Some have "b2 = Some tok" by simp
          with True st t2 have "scan_loop_re s K2 = scan_loop_re s (accept_re tok M2)"
            by (subst scan_loop_re.simps) simp
          ultimately show ?thesis by simp
        qed
      qed
    qed
  qed (rule that)
  from this [OF run] s show ?thesis by simp
qed

lemma tokenize_re_sim:
  assumes "sim (fresh_re L1) (fresh_re L2)"
  shows "map_option snd (tokenize_re L1 text fs) = map_option snd (tokenize_re L2 text fs)"
proof -
  have one: "\<exists>N. tokenize_re K2 text fs = Some (N, r)"
    if "tokenize_re K1 text fs = Some (M, r)" "sim (fresh_re K1) (fresh_re K2)" for K1 K2 M r
  proof -
    from that(1) obtain x where l: "scan_loop_re text (fresh_re K1) = Some (M, x)"
      and r: "r = (case x of Some e \<Rightarrow> Inl e
               | None \<Rightarrow> Inr (filter (\<lambda>x. tokenType x \<notin> set fs) (tokens_re M)))"
      by (auto simp: tokenize_re_def fresh_re_def Let_def split: option.splits)
    from scan_loop_re_sim [OF l that(2)] obtain N
      where n: "scan_loop_re text (fresh_re K2) = Some (N, x)" and s: "sim M N" by blast
    from s have "tokens_re M = tokens_re N" by (simp add: sim_def)
    with n r have "tokenize_re K2 text fs = Some (N, r)"
      by (simp add: tokenize_re_def fresh_re_def Let_def split: option.splits)
    then show ?thesis by blast
  qed
  show ?thesis
  proof (cases "tokenize_re L1 text fs")
    case None
    show ?thesis
    proof (cases "tokenize_re L2 text fs")
      case n2: None
      with None show ?thesis by simp
    next
      case (Some y)
      then have "tokenize_re L2 text fs = Some (fst y, snd y)" by simp
      from one [OF this sim_sym [OF assms]] None show ?thesis by simp
    qed
  next
    case (Some y)
    then have "tokenize_re L1 text fs = Some (fst y, snd y)" by simp
    from one [OF this assms] Some show ?thesis by auto
  qed
qed

lemma match_re_snd:
  "snd (match_re t text L) =
     L\<lparr>regexps := (regexps L)(regexPattern_re t :=
            snd (str_match (drop (start_re L) text) (regexps L (regexPattern_re t))))\<rparr>"
  by (simp add: match_re_def Let_def split: option.splits match_array.splits prod.splits)

lemma kept_refl: "kept L L"
  by (simp add: kept_def)

lemma match_re_kept:
  assumes "kept L K" and "t \<in> set (templates_re L)"
  shows "kept L (snd (match_re t text K))"
  using assms str_match_flags [of "drop (start_re K) text" "regexps K (regexPattern_re t)"]
  by (auto simp: kept_def match_re_snd)

lemma try_templates_re_kept:
  assumes "kept L K" and "set ts \<subseteq> set (templates_re L)"
  shows "kept L (snd (try_templates_re ts text b K))"
  using assms
proof (induction ts arbitrary: b K)
  case Nil
  then show ?case by simp
next
  case (Cons t ts)
  obtain m K1 where 1: "match_re t text K = (m, K1)" by (cases "match_re t text K")
  from Cons.prems have "t \<in> set (templates_re L)" by simp
  from match_re_kept [OF Cons.prems(1) this, of "text"] 1 have k: "kept L K1" by simp
  from Cons.prems have sub: "set ts \<subseteq> set (templates_re L)" by simp
  note ih = Cons.IH [OF k sub]
  from 1 ih show ?case by (simp split: option.splits)
qed

lemma accept_re_kept: "kept L K \<Longrightarrow> kept L (accept_re b K)"
  by (simp add: kept_def accept_re_def Let_def)

lemma scan_loop_re_kept:
  assumes run: "scan_loop_re text K = Some (K', r)" and k: "kept L K"
  shows "kept L K'"
proof -
  have "kept L K1 \<longrightarrow> kept L (fst y)" if "scan_loop_re s K1 = Some y" for s K1 y
    using that
  proof (induction s K1 y rule: scan_loop_re.raw_induct)
    case (1 loop s K1 y)
    show ?case
    proof
      assume k1: "kept L K1"
      then have "set (templates_re K1) \<subseteq> set (templates_re L)" by (simp add: kept_def)
      from try_templates_re_kept [OF k1 this, of s None]
      have km: "kept L (snd (try_templates_re (templates_re K1) s None K1))" .
      obtain b M where t: "try_templates_re (templates_re K1) s None K1 = (b, M)"
        by (cases "try_templates_re (templates_re K1) s None K1")
      with km have m: "kept L M" by simp
      show "kept L (fst y)"
      proof (cases "start_re K1 < length s")
        case False
        with 1 have "y = (K1, None)" by simp
        with k1 show ?thesis by simp
      next
        case True
        show ?thesis
        proof (cases b)
          case None
          with True 1 t have "fst y = M" by auto
          with m show ?thesis by simp
        next
          case (Some tok)
          with True 1 t have l: "loop s (accept_re tok M) = Some y" by simp
          have "scan_loop_re s K1 = scan_loop_re s (accept_re tok M)"
            using True t Some by (subst scan_loop_re.simps) simp
          with 1 have l2: "scan_loop_re s (accept_re tok M) = Some y" by simp
          from 1(1) [OF l l2] accept_re_kept [OF m, of tok] show ?thesis by simp
        qed
      qed
    qed
  qed (rule that)
  from this [OF run] k show ?thesis by simp
qed

lemma tokenize_re_kept:
  assumes "tokenize_re L text fs = Some (M, r)"
  shows "kept L M"
proof -
  from assms obtain x where l: "scan_loop_re text (fresh_re L) = Some (M, x)"
    by (auto simp: tokenize_re_def fresh_re_def Let_def split: option.splits)
  have "kept L (fresh_re L)" by (simp add: kept_def fresh_re_def)
  from scan_loop_re_kept [OF l this] show ?thesis .
qed

lemma kept_sim:
  assumes h: "no_sticky_pattern L"
    and k: "kept L M"
  shows "sim (fresh_re M) (fresh_re L)"
proof -
  have "alike (regexps M a) (regexps L a)" for a
  proof (cases "lastIndex (regexps M a) = lastIndex (regexps L a)")
    case True
    with k show ?thesis by (simp add: kept_def alike_def)
  next
    case False
    with k have "a \<in> regexPattern_re ` set (templates_re L)" by (simp add: kept_def)
    with h have "sticky (regexps L a) \<longrightarrow> global (regexps L a)"
      by (auto simp: no_sticky_pattern_def)
    with k show ?thesis by (auto simp: kept_def alike_def)
  qed
  with k show ?thesis by (simp add: sim_def fresh_re_def kept_def)
qed

lemmas lexer_re_eval = tokenize_re_def scan_loop_re.simps match_re_def accept_re_def best_def
  str_match_def exec_def a_lexer_def a_regexp_def lit_at_def NEWLINE_def index_def Let_def mk_def

lemma run_sticky_first:
  "tokenize_re (a_lexer False True 0) ''a'' [] =
     Some ((a_lexer False True 0)\<lparr>tokens_re := [mk ''A'' ''a'' 0 1 0 1], start_re := 1,
              column_re := 1,
              regexps := (regexps (a_lexer False True 0))(0 := a_regexp False True 1)\<rparr>,
           Inr [mk ''A'' ''a'' 0 1 0 1])"
  by (simp add: lexer_re_eval)

lemma run_sticky_second:
  "tokenize_re ((a_lexer False True 0)\<lparr>tokens_re := [mk ''A'' ''a'' 0 1 0 1], start_re := 1,
              column_re := 1,
              regexps := (regexps (a_lexer False True 0))(0 := a_regexp False True 1)\<rparr>) ''a'' [] =
     Some ((a_lexer False True 0)\<lparr>regexps :=
                (regexps (a_lexer False True 0))(0 := a_regexp False True 0)\<rparr>,
           Inl (new_UnexpectedCharacterError (Some ''a'') 0 0))"
  by (simp add: lexer_re_eval)

lemma run_plain:
  "tokenize_re (a_lexer False False 0) ''a'' [] =
     Some ((a_lexer False False 0)\<lparr>tokens_re := [mk ''A'' ''a'' 0 1 0 1], start_re := 1,
              column_re := 1,
              regexps := (regexps (a_lexer False False 0))(0 := a_regexp False False 0)\<rparr>,
           Inr [mk ''A'' ''a'' 0 1 0 1])"
  by (simp add: lexer_re_eval)

lemma plain_no_sticky: "no_sticky_pattern (a_lexer False False 0)"
  by (simp add: no_sticky_pattern_def a_lexer_def a_regexp_def)

section \<open>The claims\<close>

text \<open>
  C1.  For a rule set in which no rule has a zero-width match, \<open>tokenize\<close> always
  ends, whatever the filter; the unfiltered call either throws the lexical error or
  returns tokens whose lexemes concatenate to the input text, never both and never
  neither; and the empty input gives the empty sequence, the loop not being entered.
\<close>

theorem tokenize_exact_or_error:
  assumes "no_zero_width (templates L)"
  shows "(\<exists>L' r. tokenize L text filterTypes = Some (L', r))
       \<and> ((\<exists>L' e. tokenize L text [] = Some (L', Inl e))
            \<noteq> (\<exists>L' toks. tokenize L text [] = Some (L', Inr toks) \<and> concat (map lexeme toks) = text))
       \<and> tokenize L [] filterTypes = Some (fresh L, Inr [])"
proof -
  from tokenize_terminates [OF assms] obtain L' r where t: "tokenize L text [] = Some (L', r)"
    by blast
  have x: "(\<exists>L' e. tokenize L text [] = Some (L', Inl e))
            \<noteq> (\<exists>L' toks. tokenize L text [] = Some (L', Inr toks) \<and> concat (map lexeme toks) = text)"
  proof (cases r)
    case (Inl e)
    with t show ?thesis by auto
  next
    case (Inr toks)
    with t tokenize_Inr_all [of L _ "[]" L' toks]
    have "concat (map lexeme toks) = text" by simp
    with t Inr show ?thesis by auto
  qed
  have "scan_loop [] (fresh L) = Some (fresh L, None)"
    by (subst scan_loop.simps) simp
  then have "tokenize L [] filterTypes = Some (fresh L, Inr [])"
    by (simp add: tokenize_def fresh_def)
  with x tokenize_terminates [OF assms] show ?thesis by blast
qed

theorem tokenize_exact_or_error_witness:
  "no_zero_width (templates letter_lexer)
   \<and> (\<exists>L' r. tokenize letter_lexer ''abc'' [] = Some (L', r))
   \<and> ((\<exists>L' e. tokenize letter_lexer ''abc'' [] = Some (L', Inl e))
        \<noteq> (\<exists>L' toks. tokenize letter_lexer ''abc'' [] = Some (L', Inr toks)
               \<and> concat (map lexeme toks) = ''abc''))
   \<and> tokenize letter_lexer [] [] = Some (fresh letter_lexer, Inr [])"
  by (rule conjI [OF letter_lexer_no_zero_width
                 tokenize_exact_or_error [OF letter_lexer_no_zero_width]])

text \<open>
  C2.  Every token \<open>tokenize\<close> returns comes from a rule that matches its lexeme at
  the token's offset; every rule registered before that rule matches a strictly
  shorter lexeme there (or none) and every rule registered after it a lexeme that is
  not longer (or none): the longest lexeme wins, and among the rules of that length
  the earliest registered.
\<close>

theorem longest_then_first:
  assumes run: "tokenize L text filterTypes = Some (L', Inr out)" and tok: "tok \<in> set out"
  shows "\<exists>pre t post. templates L = pre @ t # post
        \<and> tokenType tok = ruleType t
        \<and> anchored (regexPattern t) text (start tok) = Some (lexeme tok)
        \<and> (\<forall>u\<in>set pre. \<forall>lx. anchored (regexPattern u) text (start tok) = Some lx
               \<longrightarrow> length lx < length (lexeme tok))
        \<and> (\<forall>u\<in>set post. \<forall>lx. anchored (regexPattern u) text (start tok) = Some lx
               \<longrightarrow> length lx \<le> length (lexeme tok))"
proof -
  have "templates L' = templates L \<and> (\<forall>x\<in>set (tokens L'). chosen (templates L) text x)"
    using run
  proof (rule tokenize_rule(1)
      [where I = "\<lambda>K. templates K = templates L \<and> (\<forall>x\<in>set (tokens K). chosen (templates L) text x)"])
    show "templates (fresh L) = templates L
          \<and> (\<forall>x\<in>set (tokens (fresh L)). chosen (templates L) text x)"
      by (simp add: fresh_def)
  next
    fix M :: "'a lexer" and b
    assume inv: "templates M = templates L \<and> (\<forall>x\<in>set (tokens M). chosen (templates L) text x)"
      and sel: "fst (try_templates (templates M) text None M) = Some b"
    from selected_chosen [OF sel] inv have "chosen (templates L) text b" by simp
    with inv show "templates (accept b M) = templates L
          \<and> (\<forall>x\<in>set (tokens (accept b M)). chosen (templates L) text x)"
      by (simp add: accept_fields)
  qed
  moreover from tokenize_Inr_all(2) [OF run] tok have "tok \<in> set (tokens L')" by simp
  ultimately have "chosen (templates L) text tok" by blast
  then show ?thesis unfolding chosen_def .
qed

theorem longest_then_first_witness:
  "tokenize short_long_lexer ''iffy'' [] =
     Some ((fresh short_long_lexer)\<lparr>tokens := [mk ''LONG'' ''iffy'' 0 4 0 4],
              cur_start := 4, cur_column := 4\<rparr>,
           Inr [mk ''LONG'' ''iffy'' 0 4 0 4])
   \<and> mk ''LONG'' ''iffy'' 0 4 0 4 \<in> set [mk ''LONG'' ''iffy'' 0 4 0 4]
   \<and> (\<exists>pre t post. templates short_long_lexer = pre @ t # post
        \<and> tokenType (mk ''LONG'' ''iffy'' 0 4 0 4) = ruleType t
        \<and> anchored (regexPattern t) ''iffy'' (start (mk ''LONG'' ''iffy'' 0 4 0 4))
            = Some (lexeme (mk ''LONG'' ''iffy'' 0 4 0 4))
        \<and> (\<forall>u\<in>set pre. \<forall>lx. anchored (regexPattern u) ''iffy''
                                 (start (mk ''LONG'' ''iffy'' 0 4 0 4)) = Some lx
               \<longrightarrow> length lx < length (lexeme (mk ''LONG'' ''iffy'' 0 4 0 4)))
        \<and> (\<forall>u\<in>set post. \<forall>lx. anchored (regexPattern u) ''iffy''
                                 (start (mk ''LONG'' ''iffy'' 0 4 0 4)) = Some lx
               \<longrightarrow> length lx \<le> length (lexeme (mk ''LONG'' ''iffy'' 0 4 0 4))))"
proof -
  have m: "mk ''LONG'' ''iffy'' 0 4 0 4 \<in> set [mk ''LONG'' ''iffy'' 0 4 0 4]" by simp
  from run_iffy m longest_then_first [OF run_iffy m] show ?thesis by (intro conjI)
qed

text \<open>
  C3, as stated, fails.  With the rules \<open>A /a\nbc/\<close> and \<open>D /d/\<close> on the text
  \<open>a\nbcd\<close> the token \<open>A\<close> contains a newline and changes the line; the token \<open>D\<close>
  after it has column \<open>1\<close>, while three characters follow the last newline; and
  accepting \<open>A\<close>, of width \<open>4\<close>, leaves the column tracker at \<open>0\<close>, not at \<open>4\<close>.
\<close>

theorem newline_law_counterexample:
  "tokenize block_lexer ([CHR ''a'', NEWLINE] @ ''bcd'') [] =
     Some ((fresh block_lexer)\<lparr>tokens := [mk ''A'' ([CHR ''a'', NEWLINE] @ ''bc'') 0 4 1 2,
                 mk ''D'' ''d'' 4 5 1 1],
              cur_start := 5, cur_column := 1, cur_line := 1\<rparr>,
           Inr [mk ''A'' ([CHR ''a'', NEWLINE] @ ''bc'') 0 4 1 2, mk ''D'' ''d'' 4 5 1 1])
   \<and> NEWLINE \<in> set (lexeme (mk ''A'' ([CHR ''a'', NEWLINE] @ ''bc'') 0 4 1 2))
   \<and> column (mk ''D'' ''d'' 4 5 1 1) = 1
   \<and> after_last_newline (take (endpos (mk ''D'' ''d'' 4 5 1 1)) ([CHR ''a'', NEWLINE] @ ''bcd'')) = 3
   \<and> line (mk ''A'' ([CHR ''a'', NEWLINE] @ ''bc'') 0 4 1 2) \<noteq> cur_line (fresh block_lexer)
   \<and> cur_column (accept (mk ''A'' ([CHR ''a'', NEWLINE] @ ''bc'') 0 4 1 2) (fresh block_lexer)) = 0
   \<and> endpos (mk ''A'' ([CHR ''a'', NEWLINE] @ ''bc'') 0 4 1 2)
        - start (mk ''A'' ([CHR ''a'', NEWLINE] @ ''bc'') 0 4 1 2) = 4"
proof -
  have "after_last_newline (take (endpos (mk ''D'' ''d'' 4 5 1 1)) ([CHR ''a'', NEWLINE] @ ''bcd'')) = 3"
    by (simp add: after_last_newline_def mk_def NEWLINE_def)
  moreover have "cur_column (accept (mk ''A'' ([CHR ''a'', NEWLINE] @ ''bc'') 0 4 1 2) (fresh block_lexer)) = 0"
    by (simp add: accept_def mk_def fresh_def Let_def)
  moreover have "line (mk ''A'' ([CHR ''a'', NEWLINE] @ ''bc'') 0 4 1 2) \<noteq> cur_line (fresh block_lexer)"
    by (simp add: mk_def fresh_def)
  ultimately show ?thesis using run_block by (simp add: mk_def)
qed

text \<open>
  C3, amended.  For every accepted token whose lexeme contains a newline, the line
  counter of the token after it is the number of newlines of the text up to that
  token's end; when the lexeme ends with the newline, the column counter of the token
  after it is the number of characters after the last newline of the text up to that
  token's end; and for a matched token whose lexeme ends with a newline, the token's
  own column is \<open>0\<close> and the tracker update sets the column to \<open>0\<close>, adding no width.
\<close>

theorem newline_law_amended:
  assumes run: "tokenize L text filterTypes = Some (L', Inr out)"
    and i: "Suc i < length (tokens L')"
    and nl: "NEWLINE \<in> set (lexeme (tokens L' ! i))"
  shows "line (tokens L' ! Suc i) = newlines (take (endpos (tokens L' ! Suc i)) text)
       \<and> (last (lexeme (tokens L' ! i)) = NEWLINE \<longrightarrow>
            column (tokens L' ! Suc i) = after_last_newline (take (endpos (tokens L' ! Suc i)) text))
       \<and> (\<forall>t K tok. fst (match t text K) = Some tok \<and> lexeme tok \<noteq> []
              \<and> last (lexeme tok) = NEWLINE \<longrightarrow>
            column tok = 0 \<and> cur_column (accept tok K) = 0)"
proof -
  have ci: "column_inv text L'"
    using run column_inv_fresh
  proof (rule tokenize_rule(1))
    fix M :: "'a lexer" and b
    assume "column_inv text M" "cur_start M < length text"
      "fst (try_templates (templates M) text None M) = Some b"
    then show "column_inv text (accept b M)" by (rule column_inv_step)
  qed
  from i have "tokens L' ! Suc i \<in> set (tokens L')" by simp
  with ci have 1: "line (tokens L' ! Suc i) = newlines (take (endpos (tokens L' ! Suc i)) text)"
    by (simp add: column_inv_def line_inv_def)
  from ci have "successively (newline_law text) (tokens L')" by (simp add: column_inv_def)
  from successively_nth [OF this i]
  have "newline_law text (tokens L' ! i) (tokens L' ! Suc i)" .
  with nl have 2: "last (lexeme (tokens L' ! i)) = NEWLINE \<longrightarrow>
            column (tokens L' ! Suc i) = after_last_newline (take (endpos (tokens L' ! Suc i)) text)"
    by (auto simp: newline_law_def)
  from 1 2 accept_after_match show ?thesis by blast
qed

theorem newline_law_amended_witness:
  "tokenize word_newline_lexer (''foo'' @ [NEWLINE] @ ''bar'') [] =
     Some ((fresh word_newline_lexer)\<lparr>tokens := [mk ''WORD'' ''foo'' 0 3 0 3,
                 mk ''NEWLINE'' [NEWLINE] 3 4 1 0, mk ''WORD'' ''bar'' 4 7 1 3],
              cur_start := 7, cur_column := 3, cur_line := 1\<rparr>,
           Inr [mk ''WORD'' ''foo'' 0 3 0 3,
                 mk ''NEWLINE'' [NEWLINE] 3 4 1 0, mk ''WORD'' ''bar'' 4 7 1 3])
   \<and> line (mk ''WORD'' ''bar'' 4 7 1 3) = newlines (''foo'' @ [NEWLINE] @ ''bar'')
   \<and> column (mk ''WORD'' ''bar'' 4 7 1 3) = after_last_newline (''foo'' @ [NEWLINE] @ ''bar'')
   \<and> newlines (''foo'' @ [NEWLINE] @ ''bar'') = 1
   \<and> after_last_newline (''foo'' @ [NEWLINE] @ ''bar'') = 3"
proof -
  let ?L = "(fresh word_newline_lexer)\<lparr>tokens := [mk ''WORD'' ''foo'' 0 3 0 3,
                 mk ''NEWLINE'' [NEWLINE] 3 4 1 0, mk ''WORD'' ''bar'' 4 7 1 3],
              cur_start := 7, cur_column := 3, cur_line := 1\<rparr>"
  have i: "Suc 1 < length (tokens ?L)" by simp
  have n: "NEWLINE \<in> set (lexeme (tokens ?L ! 1))" by (simp add: mk_def)
  have e: "last (lexeme (tokens ?L ! 1)) = NEWLINE" by (simp add: mk_def)
  from newline_law_amended [OF run_foo_bar i n] e
  have "line (tokens ?L ! Suc 1) = newlines (take (endpos (tokens ?L ! Suc 1)) (''foo'' @ [NEWLINE] @ ''bar''))"
    and "column (tokens ?L ! Suc 1)
           = after_last_newline (take (endpos (tokens ?L ! Suc 1)) (''foo'' @ [NEWLINE] @ ''bar''))"
    by blast+
  then have "line (mk ''WORD'' ''bar'' 4 7 1 3) = newlines (''foo'' @ [NEWLINE] @ ''bar'')"
    and "column (mk ''WORD'' ''bar'' 4 7 1 3) = after_last_newline (''foo'' @ [NEWLINE] @ ''bar'')"
    by (simp_all add: mk_def)
  moreover have "newlines (''foo'' @ [NEWLINE] @ ''bar'') = 1"
    and "after_last_newline (''foo'' @ [NEWLINE] @ ''bar'') = 3"
    by (simp_all add: newlines_def after_last_newline_def NEWLINE_def)
  ultimately show ?thesis using run_foo_bar by (intro conjI)
qed

text \<open>
  C4.  Every token \<open>tokenize\<close> returns has \<open>end - start\<close> equal to the length of its
  lexeme.  In the unfiltered sequence (the lexer's token list, which is what is
  returned when no category is filtered) the first token starts at \<open>0\<close> and each
  token starts where the one before it ends.
\<close>

theorem token_positions:
  assumes "tokenize L text filterTypes = Some (L', Inr out)"
  shows "(\<forall>t\<in>set out. start t \<le> endpos t \<and> endpos t - start t = length (lexeme t))
       \<and> (filterTypes = [] \<longrightarrow> out = tokens L')
       \<and> (tokens L' \<noteq> [] \<longrightarrow> start (hd (tokens L')) = 0)
       \<and> (\<forall>i. Suc i < length (tokens L') \<longrightarrow>
              start (tokens L' ! Suc i) = endpos (tokens L' ! i))"
proof -
  note t = tokenize_tiling [OF assms, unfolded tiling_def]
  note o = tokenize_Inr_all(2) [OF assms]
  from t have each: "\<forall>t\<in>set (tokens L'). endpos t = start t + length (lexeme t)" by blast
  from o have "set out \<subseteq> set (tokens L')" by auto
  with each have 1: "\<forall>t\<in>set out. start t \<le> endpos t \<and> endpos t - start t = length (lexeme t)"
    by auto
  from o have 2: "filterTypes = [] \<longrightarrow> out = tokens L'" by simp
  from t have 3: "tokens L' \<noteq> [] \<longrightarrow> start (hd (tokens L')) = 0" by presburger
  from t have "successively (\<lambda>p t. start t = endpos p) (tokens L')" by blast
  then have 4: "\<forall>i. Suc i < length (tokens L') \<longrightarrow>
              start (tokens L' ! Suc i) = endpos (tokens L' ! i)"
    using successively_nth [where P = "\<lambda>p t. start t = endpos p"] by blast
  from 1 2 3 4 show ?thesis by blast
qed

theorem token_positions_witness:
  "tokenize word_space_lexer ''a b'' [''SPACE''] =
     Some ((fresh word_space_lexer)\<lparr>tokens := [mk ''WORD'' ''a'' 0 1 0 1, mk ''SPACE'' '' '' 1 2 0 2,
                 mk ''WORD'' ''b'' 2 3 0 3], cur_start := 3, cur_column := 3\<rparr>,
           Inr [mk ''WORD'' ''a'' 0 1 0 1, mk ''WORD'' ''b'' 2 3 0 3])
   \<and> endpos (mk ''WORD'' ''b'' 2 3 0 3) - start (mk ''WORD'' ''b'' 2 3 0 3)
        = length (lexeme (mk ''WORD'' ''b'' 2 3 0 3))
   \<and> start (mk ''WORD'' ''a'' 0 1 0 1) = 0
   \<and> start (mk ''SPACE'' '' '' 1 2 0 2) = endpos (mk ''WORD'' ''a'' 0 1 0 1)
   \<and> start (mk ''WORD'' ''b'' 2 3 0 3) = endpos (mk ''SPACE'' '' '' 1 2 0 2)"
proof -
  let ?L = "(fresh word_space_lexer)\<lparr>tokens := [mk ''WORD'' ''a'' 0 1 0 1, mk ''SPACE'' '' '' 1 2 0 2,
                 mk ''WORD'' ''b'' 2 3 0 3], cur_start := 3, cur_column := 3\<rparr>"
  note t = token_positions [OF run_a_b]
  from t have "endpos (mk ''WORD'' ''b'' 2 3 0 3) - start (mk ''WORD'' ''b'' 2 3 0 3)
        = length (lexeme (mk ''WORD'' ''b'' 2 3 0 3))" by simp
  moreover from t have "tokens ?L \<noteq> [] \<longrightarrow> start (hd (tokens ?L)) = 0" by blast
  then have "start (mk ''WORD'' ''a'' 0 1 0 1) = 0" by simp
  moreover from t have s: "\<forall>i. Suc i < length (tokens ?L) \<longrightarrow>
              start (tokens ?L ! Suc i) = endpos (tokens ?L ! i)" by blast
  from s [rule_format, of 0]
  have "start (mk ''SPACE'' '' '' 1 2 0 2) = endpos (mk ''WORD'' ''a'' 0 1 0 1)" by simp
  moreover from s [rule_format, of 1]
  have "start (mk ''WORD'' ''b'' 2 3 0 3) = endpos (mk ''SPACE'' '' '' 1 2 0 2)" by simp
  ultimately show ?thesis using run_a_b by (intro conjI)
qed

text \<open>
  C5, as stated, fails.  With the single rule \<open>LETTER /[a-z]+/\<close> on the text \<open>1\<close> no
  rule matches at offset \<open>0\<close>, where the current column is \<open>0\<close>; the error raised
  carries column \<open>1\<close>.
\<close>

theorem lexical_error_column_counterexample:
  "tokenize letter_lexer ''1'' [] =
     Some (fresh letter_lexer, Inl (new_UnexpectedCharacterError (Some ''1'') 0 0))
   \<and> cur_column (fresh letter_lexer) = 0
   \<and> err_column (new_UnexpectedCharacterError (Some ''1'') 0 0) = 1"
  using run_1 by (simp add: fresh_def new_UnexpectedCharacterError_def)

text \<open>
  C5, amended.  Whenever \<open>tokenize\<close> fails, no rule matches at the current offset,
  and the error carries the current line number, the text of the current source
  line (the input split on newline, indexed by that line number, which is in range),
  and the current column number, except that a current column of \<open>0\<close> is carried as
  \<open>1\<close>.  The instance after the theorem is the example of the specification: \<open>abc123\<close> with the rule
  \<open>LETTER /[a-z]+/\<close> raises the error with column \<open>3\<close>, line \<open>0\<close> and excerpt
  \<open>abc123\<close>.
\<close>

theorem lexical_error_amended:
  assumes run: "tokenize L text filterTypes = Some (L', Inl e)"
  shows "cur_start L' < length text
       \<and> (\<forall>t\<in>set (templates L'). fst (match t text L') = None)
       \<and> err_line e = cur_line L'
       \<and> cur_line L' < length (split NEWLINE text)
       \<and> excerpt e = Some (split NEWLINE text ! cur_line L')
       \<and> err_column e = (if cur_column L' = 0 then 1 else cur_column L')"
proof -
  have li: "line_inv text L'"
    using run line_inv_fresh
  proof (rule tokenize_rule(1))
    fix M :: "'a lexer" and b
    assume "line_inv text M" "cur_start M < length text"
      "fst (try_templates (templates M) text None M) = Some b"
    then show "line_inv text (accept b M)" by (rule line_inv_step)
  qed
  have "case Inl e of Inl e \<Rightarrow> exit_ok text L' (Some e)
         | Inr out \<Rightarrow> exit_ok text L' None
                      \<and> out = filter (\<lambda>x. tokenType x \<notin> set filterTypes) (tokens L')"
    using run by (rule tokenize_rule(2) [where I = "\<lambda>K. True"]) simp_all
  then have lt: "cur_start L' < length text"
    and none: "fst (try_templates (templates L') text None L') = None"
    and e: "e = new_UnexpectedCharacterError (index (split NEWLINE text) (cur_line L'))
                         (cur_line L') (cur_column L')"
    by (simp_all add: exit_ok_def)
  from li have "cur_line L' = newlines (take (cur_start L') text)" by (simp add: line_inv_def)
  moreover have "newlines (take (cur_start L') text) \<le> newlines text"
    by (rule newlines_take_le)
  moreover have "length (split NEWLINE text) = Suc (newlines text)"
    by (simp add: length_split newlines_def)
  ultimately have r: "cur_line L' < length (split NEWLINE text)" by simp
  from none have 2: "\<forall>t\<in>set (templates L'). fst (match t text L') = None"
    using try_templates_None_result by blast
  from e r have 3: "err_line e = cur_line L'"
    and 4: "excerpt e = Some (split NEWLINE text ! cur_line L')"
    and 5: "err_column e = (if cur_column L' = 0 then 1 else cur_column L')"
    by (simp_all add: new_UnexpectedCharacterError_def Let_def index_def)
  from lt 2 3 r 4 5 show ?thesis by blast
qed

theorem lexical_error_amended_witness:
  "tokenize letter_lexer ''abc123'' [] =
     Some ((fresh letter_lexer)\<lparr>tokens := [mk ''LETTER'' ''abc'' 0 3 0 3],
              cur_start := 3, cur_column := 3\<rparr>,
           Inl (new_UnexpectedCharacterError (Some ''abc123'') 0 3))
   \<and> err_line (new_UnexpectedCharacterError (Some ''abc123'') 0 3) = 0
   \<and> excerpt (new_UnexpectedCharacterError (Some ''abc123'') 0 3) = Some ''abc123''
   \<and> err_column (new_UnexpectedCharacterError (Some ''abc123'') 0 3) = 3"
proof -
  note t = lexical_error_amended [OF run_abc123]
  from t have "err_line (new_UnexpectedCharacterError (Some ''abc123'') 0 3) = 0"
    by (simp add: fresh_def)
  moreover from t have "excerpt (new_UnexpectedCharacterError (Some ''abc123'') 0 3) = Some ''abc123''"
    by (simp add: NEWLINE_def fresh_def)
  moreover from t have "err_column (new_UnexpectedCharacterError (Some ''abc123'') 0 3) = 3"
    by (simp add: fresh_def)
  ultimately show ?thesis using run_abc123 by (intro conjI)
qed

text \<open>
  C6.  For a cursor whose position is within its token sequence: if \<open>check\<close> holds,
  \<open>consume\<close> is \<open>advance\<close>, returning the current token and moving the position by
  one; otherwise it appends exactly one message to the soft errors, raises the hard
  error that carries the rendered diagnostic, and leaves the position unchanged.
\<close>

theorem consume_behaviour:
  assumes "currentPosition c \<le> length (ptokens c)"
  shows "(check category c \<longrightarrow>
            consume category msg c = (Inr (fst (advance c)), snd (advance c))
          \<and> fst (advance c) = current c
          \<and> current c \<noteq> None
          \<and> snd (advance c) = c\<lparr>currentPosition := currentPosition c + 1\<rparr>)
       \<and> (\<not> check category c \<longrightarrow>
            (\<exists>m. makeErrorMsg c msg = Some m
               \<and> consume category msg c = (Inl (Error m), c\<lparr>errors := errors c @ [m]\<rparr>)
               \<and> errors (snd (consume category msg c)) = errors c @ [m]
               \<and> currentPosition (snd (consume category msg c)) = currentPosition c))"
proof -
  have 1: "consume category msg c = (Inr (fst (advance c)), snd (advance c))
          \<and> fst (advance c) = current c
          \<and> current c \<noteq> None
          \<and> snd (advance c) = c\<lparr>currentPosition := currentPosition c + 1\<rparr>"
    if "check category c"
    using that
    by (auto simp: consume_def check_def current_def lookAround_def advance_def index_def Let_def
             split: option.splits if_splits)
  have 2: "\<exists>m. makeErrorMsg c msg = Some m
               \<and> consume category msg c = (Inl (Error m), c\<lparr>errors := errors c @ [m]\<rparr>)
               \<and> errors (snd (consume category msg c)) = errors c @ [m]
               \<and> currentPosition (snd (consume category msg c)) = currentPosition c"
    if "\<not> check category c"
  proof -
    from makeErrorMsg_Some [OF assms, of msg] obtain m where "makeErrorMsg c msg = Some m"
      by (simp add: Let_def)
    with that show ?thesis by (simp add: consume_def addError_def)
  qed
  from 1 2 show ?thesis by blast
qed

theorem consume_behaviour_witness:
  "currentPosition test_cursor \<le> length (ptokens test_cursor)
   \<and> check ''KEYWORD'' test_cursor
   \<and> consume ''KEYWORD'' ''Expected keyword'' test_cursor
       = (Inr (Some (mk ''KEYWORD'' ''if'' 0 2 0 2)), test_cursor\<lparr>currentPosition := 1\<rparr>)
   \<and> \<not> check ''NUMBER'' test_cursor
   \<and> errors (snd (consume ''NUMBER'' ''Expected number'' test_cursor))
       = [''Expected number: '' @ [NEWLINE, TAB] @ ''Near here (column 0 on line 0):''
             @ [NEWLINE, TAB, TAB] @ ''if ('' @ [NEWLINE, TAB, TAB] @ [CARET]]
   \<and> currentPosition (snd (consume ''NUMBER'' ''Expected number'' test_cursor)) = 0"
proof -
  have h: "currentPosition test_cursor \<le> length (ptokens test_cursor)"
    by (simp add: test_cursor_def)
  have k: "check ''KEYWORD'' test_cursor"
    by (simp add: check_def current_def lookAround_def test_cursor_def)
  have n: "\<not> check ''NUMBER'' test_cursor"
    by (simp add: check_def current_def lookAround_def test_cursor_def)
  from consume_behaviour [OF h, of "''KEYWORD''" "''Expected keyword''"] k
  have "consume ''KEYWORD'' ''Expected keyword'' test_cursor
          = (Inr (fst (advance test_cursor)), snd (advance test_cursor))" by blast
  then have 1: "consume ''KEYWORD'' ''Expected keyword'' test_cursor
       = (Inr (Some (mk ''KEYWORD'' ''if'' 0 2 0 2)), test_cursor\<lparr>currentPosition := 1\<rparr>)"
    by (simp add: advance_def index_def test_cursor_def mk_def)
  from consume_behaviour [OF h, of "''NUMBER''" "''Expected number''"] n
  obtain m where m: "makeErrorMsg test_cursor ''Expected number'' = Some m"
    and e: "errors (snd (consume ''NUMBER'' ''Expected number'' test_cursor))
              = errors test_cursor @ [m]"
    and p: "currentPosition (snd (consume ''NUMBER'' ''Expected number'' test_cursor))
              = currentPosition test_cursor"
    by blast
  from m have "m = ''Expected number: '' @ [NEWLINE, TAB] @ ''Near here (column 0 on line 0):''
             @ [NEWLINE, TAB, TAB] @ ''if ('' @ [NEWLINE, TAB, TAB] @ [CARET]"
    by (simp add: makeErrorMsg_def test_cursor_def Let_def NEWLINE_def interpolate_def
          toString.simps digit_def)
  with e p have 2: "errors (snd (consume ''NUMBER'' ''Expected number'' test_cursor))
       = [''Expected number: '' @ [NEWLINE, TAB] @ ''Near here (column 0 on line 0):''
             @ [NEWLINE, TAB, TAB] @ ''if ('' @ [NEWLINE, TAB, TAB] @ [CARET]]"
    and 3: "currentPosition (snd (consume ''NUMBER'' ''Expected number'' test_cursor)) = 0"
    by (simp_all add: test_cursor_def)
  from h k 1 n 2 3 show ?thesis by (intro conjI)
qed

text \<open>
  C7.  For a cursor whose position is within its token sequence, \<open>makeErrorMsg\<close>
  takes the column and the line of the token before the position (both \<open>0\<close> at
  position \<open>0\<close>), takes as excerpt the line of that number of the source split on
  newline, or the whole source if it has no newline, and returns the message, the
  excerpt and the marker line (as many fillers as the column, then a caret),
  stacked.
\<close>

theorem makeErrorMsg_rendering:
  assumes "currentPosition c \<le> length (ptokens c)"
  shows "let pos = currentPosition c;
             tCol = (if pos = 0 then 0 else column (ptokens c ! (pos - 1)));
             tLine = (if pos = 0 then 0 else line (ptokens c ! (pos - 1)));
             ex = (if NEWLINE \<in> set (source c) then index (split NEWLINE (source c)) tLine
                   else Some (source c));
             marker = replicate tCol MINUS @ [CARET]
         in makeErrorMsg c msg =
              Some (msg @ '': '' @ [NEWLINE, TAB]
                @ ''Near here (column '' @ toString tCol @ '' on line '' @ toString tLine @ ''):''
                @ [NEWLINE, TAB, TAB] @ interpolate ex @ [NEWLINE, TAB, TAB] @ marker)
          \<and> (NEWLINE \<in> set (source c) \<and> tLine < length (split NEWLINE (source c))
                \<longrightarrow> interpolate ex = split NEWLINE (source c) ! tLine)
          \<and> (NEWLINE \<notin> set (source c) \<longrightarrow> interpolate ex = source c)"
  using makeErrorMsg_Some [OF assms, of msg]
  by (simp add: Let_def index_def interpolate_def)

theorem makeErrorMsg_rendering_witness:
  "currentPosition (test_cursor\<lparr>currentPosition := 1\<rparr>)
     \<le> length (ptokens (test_cursor\<lparr>currentPosition := 1\<rparr>))
   \<and> makeErrorMsg (test_cursor\<lparr>currentPosition := 1\<rparr>) ''Parse error'' =
       Some (''Parse error: '' @ [NEWLINE, TAB] @ ''Near here (column 2 on line 0):''
             @ [NEWLINE, TAB, TAB] @ ''if ('' @ [NEWLINE, TAB, TAB] @ [MINUS, MINUS, CARET])"
proof -
  have h: "currentPosition (test_cursor\<lparr>currentPosition := 1\<rparr>)
     \<le> length (ptokens (test_cursor\<lparr>currentPosition := 1\<rparr>))"
    by (simp add: test_cursor_def)
  from makeErrorMsg_rendering [OF h, of "''Parse error''"]
  have "makeErrorMsg (test_cursor\<lparr>currentPosition := 1\<rparr>) ''Parse error'' =
       Some (''Parse error: '' @ [NEWLINE, TAB] @ ''Near here (column 2 on line 0):''
             @ [NEWLINE, TAB, TAB] @ ''if ('' @ [NEWLINE, TAB, TAB] @ [MINUS, MINUS, CARET])"
    by (simp add: test_cursor_def Let_def NEWLINE_def interpolate_def toString.simps digit_def
          eval_nat_numeral)
  with h show ?thesis by (intro conjI)
qed

text \<open>
  C8.  When \<open>tokenize\<close> returns, the sequence returned is the unfiltered sequence
  (what the call without filter returns) with exactly the tokens of a filtered
  category removed: no returned token has a filtered category, every other produced
  token is returned, and the order is that of the unfiltered sequence.
\<close>

theorem filter_law:
  assumes "tokenize L text filterTypes = Some (L', Inr out)"
  shows "tokenize L text [] = Some (L', Inr (tokens L'))
       \<and> out = filter (\<lambda>x. tokenType x \<notin> set filterTypes) (tokens L')
       \<and> (\<forall>t\<in>set out. tokenType t \<notin> set filterTypes)
       \<and> (\<forall>t\<in>set (tokens L'). tokenType t \<notin> set filterTypes \<longrightarrow> t \<in> set out)
       \<and> subseq out (tokens L')"
proof -
  note o = tokenize_Inr_all(2) [OF assms]
  from assms have "scan_loop text (fresh L) = Some (L', None)"
    by (auto simp: tokenize_cases split: option.splits)
  then have 1: "tokenize L text [] = Some (L', Inr (tokens L'))"
    by (simp add: tokenize_cases)
  from o have 2: "\<forall>t\<in>set out. tokenType t \<notin> set filterTypes" by simp
  from o have 3: "\<forall>t\<in>set (tokens L'). tokenType t \<notin> set filterTypes \<longrightarrow> t \<in> set out" by simp
  from o have 4: "subseq out (tokens L')" by simp
  from 1 o 2 3 4 show ?thesis by blast
qed

theorem filter_law_witness:
  "tokenize word_space_lexer ''a b'' [''SPACE''] =
     Some ((fresh word_space_lexer)\<lparr>tokens := [mk ''WORD'' ''a'' 0 1 0 1, mk ''SPACE'' '' '' 1 2 0 2,
                 mk ''WORD'' ''b'' 2 3 0 3], cur_start := 3, cur_column := 3\<rparr>,
           Inr [mk ''WORD'' ''a'' 0 1 0 1, mk ''WORD'' ''b'' 2 3 0 3])
   \<and> tokenize word_space_lexer ''a b'' [] =
     Some ((fresh word_space_lexer)\<lparr>tokens := [mk ''WORD'' ''a'' 0 1 0 1, mk ''SPACE'' '' '' 1 2 0 2,
                 mk ''WORD'' ''b'' 2 3 0 3], cur_start := 3, cur_column := 3\<rparr>,
           Inr [mk ''WORD'' ''a'' 0 1 0 1, mk ''SPACE'' '' '' 1 2 0 2, mk ''WORD'' ''b'' 2 3 0 3])
   \<and> subseq [mk ''WORD'' ''a'' 0 1 0 1, mk ''WORD'' ''b'' 2 3 0 3]
        [mk ''WORD'' ''a'' 0 1 0 1, mk ''SPACE'' '' '' 1 2 0 2, mk ''WORD'' ''b'' 2 3 0 3]"
proof -
  note t = filter_law [OF run_a_b]
  from t have "tokenize word_space_lexer ''a b'' [] =
     Some ((fresh word_space_lexer)\<lparr>tokens := [mk ''WORD'' ''a'' 0 1 0 1, mk ''SPACE'' '' '' 1 2 0 2,
                 mk ''WORD'' ''b'' 2 3 0 3], cur_start := 3, cur_column := 3\<rparr>,
           Inr [mk ''WORD'' ''a'' 0 1 0 1, mk ''SPACE'' '' '' 1 2 0 2, mk ''WORD'' ''b'' 2 3 0 3])"
    by simp
  moreover from t have "subseq [mk ''WORD'' ''a'' 0 1 0 1, mk ''WORD'' ''b'' 2 3 0 3]
        [mk ''WORD'' ''a'' 0 1 0 1, mk ''SPACE'' '' '' 1 2 0 2, mk ''WORD'' ''b'' 2 3 0 3]"
    by simp
  ultimately show ?thesis using run_a_b by (intro conjI)
qed

text \<open>
  C9, as stated, fails.  With the single rule \<open>A\<close> of the sticky pattern \<open>/a/y\<close>,
  \<open>tokenize\<close> of the text \<open>a\<close> returns the token \<open>A\<close> and leaves \<open>lastIndex\<close> at \<open>1\<close>;
  the same call again, on the lexer as the first call left it, raises the lexical
  error: the only attempt is at index \<open>1\<close>.
\<close>

theorem tokenize_sticky_counterexample:
  "sticky (regexps (a_lexer False True 0) 0)
   \<and> tokenize_re (a_lexer False True 0) ''a'' [] =
     Some ((a_lexer False True 0)\<lparr>tokens_re := [mk ''A'' ''a'' 0 1 0 1], start_re := 1,
              column_re := 1,
              regexps := (regexps (a_lexer False True 0))(0 := a_regexp False True 1)\<rparr>,
           Inr [mk ''A'' ''a'' 0 1 0 1])
   \<and> tokenize_re ((a_lexer False True 0)\<lparr>tokens_re := [mk ''A'' ''a'' 0 1 0 1], start_re := 1,
              column_re := 1,
              regexps := (regexps (a_lexer False True 0))(0 := a_regexp False True 1)\<rparr>) ''a'' [] =
     Some ((a_lexer False True 0)\<lparr>regexps :=
                (regexps (a_lexer False True 0))(0 := a_regexp False True 0)\<rparr>,
           Inl (new_UnexpectedCharacterError (Some ''a'') 0 0))"
proof -
  have "sticky (regexps (a_lexer False True 0) 0)" by (simp add: a_lexer_def a_regexp_def)
  with run_sticky_first run_sticky_second show ?thesis by (intro conjI)
qed

text \<open>
  C9, amended.  \<open>tokenize\<close> sets the token list, the start offset, the line and the
  column on entry, and not the \<open>lastIndex\<close> of the patterns.  For every lexer none
  of whose patterns is sticky without being global, in any state: after any call of
  \<open>tokenize\<close> that returned or raised, the same call again returns the same tokens
  or raises the same error, and every call has the outcome it has on the lexer
  before.
\<close>

theorem tokenize_re_history_independent:
  assumes "no_sticky_pattern L"
    and "tokenize_re L u gs = Some (M, r)"
  shows "(\<exists>N. tokenize_re M u gs = Some (N, r))
       \<and> map_option snd (tokenize_re M text fs) = map_option snd (tokenize_re L text fs)"
proof -
  note s = kept_sim [OF assms(1) tokenize_re_kept [OF assms(2)]]
  have e: "map_option snd (tokenize_re M t hs) = map_option snd (tokenize_re L t hs)" for t hs
    using s by (rule tokenize_re_sim)
  from e [of u gs] assms(2) have "\<exists>N. tokenize_re M u gs = Some (N, r)" by auto
  with e show ?thesis by simp
qed

theorem tokenize_re_history_independent_witness:
  "no_sticky_pattern (a_lexer False False 0)
   \<and> tokenize_re (a_lexer False False 0) ''a'' [] =
     Some ((a_lexer False False 0)\<lparr>tokens_re := [mk ''A'' ''a'' 0 1 0 1], start_re := 1,
              column_re := 1,
              regexps := (regexps (a_lexer False False 0))(0 := a_regexp False False 0)\<rparr>,
           Inr [mk ''A'' ''a'' 0 1 0 1])
   \<and> map_option snd
        (tokenize_re ((a_lexer False False 0)\<lparr>tokens_re := [mk ''A'' ''a'' 0 1 0 1], start_re := 1,
              column_re := 1,
              regexps := (regexps (a_lexer False False 0))(0 := a_regexp False False 0)\<rparr>) ''a'' [])
      = Some (Inr [mk ''A'' ''a'' 0 1 0 1])"
proof -
  from tokenize_re_history_independent [OF plain_no_sticky run_plain, of "''a''" "[]"] run_plain
  have "map_option snd
        (tokenize_re ((a_lexer False False 0)\<lparr>tokens_re := [mk ''A'' ''a'' 0 1 0 1], start_re := 1,
              column_re := 1,
              regexps := (regexps (a_lexer False False 0))(0 := a_regexp False False 0)\<rparr>) ''a'' [])
      = Some (Inr [mk ''A'' ''a'' 0 1 0 1])"
    by simp
  with plain_no_sticky run_plain show ?thesis by (intro conjI)
qed

text \<open>
  C10.  \<open>match\<close> leaves the lexer as it was, whether it gives a token or not; the
  token's start, line and column are computed from the lexer's offset, line and
  column, which stay unchanged.
\<close>

theorem match_frame:
  "snd (match template text L) = L
   \<and> (\<forall>tok. fst (match template text L) = Some tok \<longrightarrow>
         start tok = cur_start L
       \<and> line tok = cur_line L + newlines (lexeme tok)
       \<and> column tok = (if NEWLINE \<in> set (lexeme tok) then after_last_newline (lexeme tok)
                        else cur_column L + length (lexeme tok)))"
  using match_state [of template _ L] match_Some(3,5,6) [of template _ L] by blast

theorem match_frame_witness:
  "fst (match \<lparr>ruleType = ''LETTER'', regexPattern = re_plus lower, callback = None\<rparr> ''abc''
          (fresh letter_lexer)) = Some (mk ''LETTER'' ''abc'' 0 3 0 3)
   \<and> snd (match \<lparr>ruleType = ''LETTER'', regexPattern = re_plus lower, callback = None\<rparr> ''abc''
          (fresh letter_lexer)) = fresh letter_lexer
   \<and> start (mk ''LETTER'' ''abc'' 0 3 0 3) = cur_start (fresh letter_lexer)
   \<and> line (mk ''LETTER'' ''abc'' 0 3 0 3) = cur_line (fresh letter_lexer) + newlines ''abc''
   \<and> column (mk ''LETTER'' ''abc'' 0 3 0 3) = cur_column (fresh letter_lexer) + length ''abc''"
proof -
  note t = match_frame [of "\<lparr>ruleType = ''LETTER'', regexPattern = re_plus lower, callback = None\<rparr>"
                           "''abc''" "fresh letter_lexer"]
  from t have 1: "snd (match \<lparr>ruleType = ''LETTER'', regexPattern = re_plus lower, callback = None\<rparr>
                        ''abc'' (fresh letter_lexer)) = fresh letter_lexer" by blast
  from t match_abc
  have "start (mk ''LETTER'' ''abc'' 0 3 0 3) = cur_start (fresh letter_lexer)
       \<and> line (mk ''LETTER'' ''abc'' 0 3 0 3)
           = cur_line (fresh letter_lexer) + newlines (lexeme (mk ''LETTER'' ''abc'' 0 3 0 3))
       \<and> column (mk ''LETTER'' ''abc'' 0 3 0 3)
           = (if NEWLINE \<in> set (lexeme (mk ''LETTER'' ''abc'' 0 3 0 3))
              then after_last_newline (lexeme (mk ''LETTER'' ''abc'' 0 3 0 3))
              else cur_column (fresh letter_lexer) + length (lexeme (mk ''LETTER'' ''abc'' 0 3 0 3)))"
    by blast
  then have "start (mk ''LETTER'' ''abc'' 0 3 0 3) = cur_start (fresh letter_lexer)"
    and "line (mk ''LETTER'' ''abc'' 0 3 0 3) = cur_line (fresh letter_lexer) + newlines ''abc''"
    and "column (mk ''LETTER'' ''abc'' 0 3 0 3) = cur_column (fresh letter_lexer) + length ''abc''"
    by (simp_all add: mk_def NEWLINE_def)
  with 1 match_abc show ?thesis by (intro conjI)
qed

end
